theory Spec2Isabelle
  imports Main "HOL-Library.AList" "HOL-Library.Sublist"
begin

section \<open>JavaScript strings\<close>

text \<open>
  Strings are lists of code units; the model covers the code units below 256.
  \<open>is_ws\<close> holds of the white space and line terminator code units in that range, which
  are the ones \<open>String.prototype.trim\<close> strips.
\<close>

definition is_ws :: "char \<Rightarrow> bool" where
  "is_ws c = (c = CHR 0x09 \<or> c = CHR 0x0A \<or> c = CHR 0x0B \<or> c = CHR 0x0C \<or> c = CHR 0x0D
     \<or> c = CHR 0x20 \<or> c = CHR 0xA0)"

definition trim :: "string \<Rightarrow> string" where
  "trim s = rev (dropWhile is_ws (rev (dropWhile is_ws s)))"

text \<open>\<open>s.split(sep)\<close> for a separator of one code unit: never empty, \<open>''.split(sep)\<close> is \<open>['']\<close>.\<close>

fun split :: "char \<Rightarrow> string \<Rightarrow> string list" where
  "split sep [] = [[]]"
| "split sep (c # s) =
     (let r = split sep s in if c = sep then [] # r else (c # hd r) # tl r)"

fun join :: "string \<Rightarrow> string list \<Rightarrow> string" where
  "join sep [] = []"
| "join sep [x] = x"
| "join sep (x # y # ys) = x @ sep @ join sep (y # ys)"

text \<open>\<open>s.includes(sub)\<close>: \<open>sub\<close> occurs in \<open>s\<close> as a contiguous substring.\<close>

fun includesStr :: "string \<Rightarrow> string \<Rightarrow> bool" where
  "includesStr [] sub = (sub = [])"
| "includesStr (c # s) sub = (prefix sub (c # s) \<or> includesStr s sub)"

text \<open>
  \<open>s.replaceAll(pat, rep)\<close> for a string pattern: the occurrences are found from left to
  right and do not overlap; the empty pattern matches before every code unit and at the end.
  The replacement is inserted as it stands, which is what JavaScript does with a replacement
  that has no dollar sign.
\<close>

function replaceAll :: "string \<Rightarrow> string \<Rightarrow> string \<Rightarrow> string" where
  "replaceAll s [] rep = rep @ concat (map (\<lambda>c. c # rep) s)"
| "replaceAll [] (p # ps) rep = []"
| "replaceAll (c # s) (p # ps) rep =
     (if prefix (p # ps) (c # s) then rep @ replaceAll (drop (length ps) s) (p # ps) rep
      else c # replaceAll s (p # ps) rep)"
  by pat_completeness auto
termination
  by (relation "measure (\<lambda>(s, p, r). length s)") auto

text \<open>
  \<open>toLowerCase\<close> on the code units below 256: the ASCII capitals and the Latin-1 capitals
  (all of \<open>0xC0..0xDE\<close> but the multiplication sign) move up by 32.
\<close>

definition toLower :: "char \<Rightarrow> char" where
  "toLower c =
     (let n = (of_char c :: nat) in
      if (65 \<le> n \<and> n \<le> 90) \<or> (192 \<le> n \<and> n \<le> 222 \<and> n \<noteq> 215) then char_of (n + 32) else c)"

definition toLowerCase :: "string \<Rightarrow> string" where
  "toLowerCase s = map toLower s"

section \<open>parseCSP (the same text in src/steps/render.js and in the unnamed module)\<close>

text \<open>
  The parsed policy is the object \<open>result\<close>: an association list with one entry per own
  property, in the order of first assignment. \<open>result[key] = v\<close> on an object literal
  stores an own property for every key but \<open>__proto__\<close>, whose inherited setter ignores a
  string.
\<close>

definition assign :: "(string \<times> string) list \<Rightarrow> string \<Rightarrow> string \<Rightarrow> (string \<times> string) list" where
  "assign result key v = (if key = ''__proto__'' then result else AList.update key v result)"

text \<open>The body of the \<open>forEach\<close> callback: \<open>const [directive, ...values] = part.trim().split(' ')\<close>.\<close>

definition parsePart :: "string \<Rightarrow> string \<times> string" where
  "parsePart part = (let tokens = split CHR '' '' (trim part) in (hd tokens, join '' '' (tl tokens)))"

definition parseCSP :: "string \<Rightarrow> (string \<times> string) list" where
  "parseCSP csp =
     foldl (\<lambda>result part. case parsePart part of (directive, values) \<Rightarrow> assign result directive values)
       [] (split CHR '';'' csp)"

text \<open>
  The parser as the specification words it: only the non-empty trimmed segments count, and a
  segment is split on white space.
\<close>

function wordsOf :: "string \<Rightarrow> string list" where
  "wordsOf [] = []"
| "wordsOf (c # s) =
     (if is_ws c then wordsOf s
      else (c # takeWhile (\<lambda>x. \<not> is_ws x) s) # wordsOf (dropWhile (\<lambda>x. \<not> is_ws x) s))"
  by pat_completeness auto
termination
  by (relation "measure length") (auto simp: length_dropWhile_le less_Suc_eq_le)

definition parseCSP_spec :: "string \<Rightarrow> (string \<times> string) list" where
  "parseCSP_spec csp =
     foldl (\<lambda>result part. case wordsOf part of
                [] \<Rightarrow> result
              | directive # values \<Rightarrow> AList.update directive (join '' '' values) result)
       [] (split CHR '';'' csp)"

text \<open>
  What a segment contributes in the code: the name is the trimmed segment up to its first
  space, the value is everything after that space.
\<close>

definition directiveOf :: "string \<Rightarrow> string" where
  "directiveOf part = takeWhile (\<lambda>c. c \<noteq> CHR '' '') (trim part)"

definition valueOf :: "string \<Rightarrow> string" where
  "valueOf part = drop 1 (dropWhile (\<lambda>c. c \<noteq> CHR '' '') (trim part))"

text \<open>
  The reconstruction of a policy text from a parsed policy, as the specification words it:
  directive, a space, its value; the directives joined by a semicolon and a space.
\<close>

definition renderDirective :: "string \<times> string \<Rightarrow> string" where
  "renderDirective e = (case e of (d, v) \<Rightarrow> d @ '' '' @ v)"

definition reconstruct :: "(string \<times> string) list \<Rightarrow> string" where
  "reconstruct m = join ''; '' (map renderDirective m)"

definition tokensOf :: "string \<Rightarrow> string \<times> string" where
  "tokensOf t = (takeWhile (\<lambda>c. c \<noteq> CHR '' '') t, drop 1 (dropWhile (\<lambda>c. c \<noteq> CHR '' '') t))"

definition wellFormedEntry :: "string \<times> string \<Rightarrow> bool" where
  "wellFormedEntry e = (\<exists>part. CHR '';'' \<notin> set part \<and> e = parsePart part)"

section \<open>The tree and the response\<close>

text \<open>
  The tree is a hast tree. An element's \<open>properties\<close> object is a record of the properties
  the two modules read or write, typed as the HTML parser and \<open>hastscript\<close> produce them:
  \<open>httpEquiv\<close> and \<open>rel\<close> are space-separated token lists, \<open>content\<close> and \<open>nonce\<close> are
  strings, and \<open>keep-as-meta\<close>, which the schema does not know, holds whatever the author
  wrote (a string from the parser, possibly a boolean from \<open>hastscript\<close>). \<open>None\<close> is an
  absent property. All other properties are in \<open>others\<close>.
\<close>

datatype jsval = JStr string | JBool bool

record properties =
  httpEquiv :: "string list option"
  rel :: "string list option"
  content :: "string option"
  nonce :: "string option"
  keepAsMeta :: "jsval option"
  others :: "(string \<times> jsval) list"

datatype node =
    Element string properties "node list"
  | Text string
  | Comment string
  | Doctype

text \<open>
  The \<open>tree\<close> and \<open>head\<close> arguments are root nodes (the document, the parsed fragment): a
  root is modelled by the list of its children. The response has a \<open>Map\<close> of headers.
\<close>

record response =
  headers :: "string \<rightharpoonup> string"
  body :: "string option"

datatype error = TypeError

definition props0 :: properties where
  "props0 = \<lparr>httpEquiv = None, rel = None, content = None, nonce = None, keepAsMeta = None, others = []\<rparr>"

text \<open>JavaScript truthiness of a property value and of a header value.\<close>

fun truthy :: "jsval option \<Rightarrow> bool" where
  "truthy None = False"
| "truthy (Some (JStr s)) = (s \<noteq> [])"
| "truthy (Some (JBool b)) = b"

fun truthyStr :: "string option \<Rightarrow> bool" where
  "truthyStr None = False"
| "truthyStr (Some s) = (s \<noteq> [])"

subsection \<open>References into the tree\<close>

text \<open>
  The modules hold a reference to the meta element and mutate the element through it. A
  parsed tree shares no nodes, so a reference is the path from the root: the child index at
  every level.
\<close>

type_synonym path = "nat list"

fun childrenOf :: "node \<Rightarrow> node list" where
  "childrenOf (Element t pr cs) = cs"
| "childrenOf n = []"

fun mapProps :: "(properties \<Rightarrow> properties) \<Rightarrow> node \<Rightarrow> node" where
  "mapProps f (Element t pr cs) = Element t (f pr) cs"
| "mapProps f n = n"

fun setChildren :: "node list \<Rightarrow> node \<Rightarrow> node" where
  "setChildren cs (Element t pr old) = Element t pr cs"
| "setChildren cs n = n"

fun nodeAt :: "path \<Rightarrow> node list \<Rightarrow> node option" where
  "nodeAt [] ns = None"
| "nodeAt (i # p) ns =
     (if i < length ns then (if p = [] then Some (ns ! i) else nodeAt p (childrenOf (ns ! i)))
      else None)"

fun labelOf :: "node \<Rightarrow> (string \<times> properties) option" where
  "labelOf (Element t pr cs) = Some (t, pr)"
| "labelOf n = None"

text \<open>The tag name and the properties of the element a path refers to.\<close>

definition labelAt :: "path \<Rightarrow> node list \<Rightarrow> (string \<times> properties) option" where
  "labelAt p tree = Option.bind (nodeAt p tree) labelOf"

definition propsAt :: "path \<Rightarrow> node list \<Rightarrow> properties option" where
  "propsAt p tree = map_option snd (labelAt p tree)"

text \<open>\<open>el.properties.x = v\<close> and \<open>delete el.properties.x\<close> through the reference \<open>p\<close>.\<close>

fun updateAt :: "(properties \<Rightarrow> properties) \<Rightarrow> path \<Rightarrow> node list \<Rightarrow> node list" where
  "updateAt f [] ns = ns"
| "updateAt f (i # p) ns =
     (if i < length ns
      then ns[i := (if p = [] then mapProps f (ns ! i)
                    else setChildren (updateAt f p (childrenOf (ns ! i))) (ns ! i))]
      else ns)"

subsection \<open>The tree library: hast-util-select and unist-util-remove\<close>

text \<open>
  \<open>select(selector, tree)\<close>: the first element in document order (depth first, parents
  before children) that the selector matches. A selector as used here tests the tag name and
  the properties of an element.
\<close>

fun shift :: "path \<Rightarrow> path" where
  "shift [] = []"
| "shift (i # p) = Suc i # p"

fun select :: "(string \<Rightarrow> properties \<Rightarrow> bool) \<Rightarrow> node list \<Rightarrow> path option" where
  "select sel [] = None"
| "select sel (Element t pr cs # ns) =
     (if sel t pr then Some [0]
      else case select sel cs of
             Some p \<Rightarrow> Some (0 # p)
           | None \<Rightarrow> map_option shift (select sel ns))"
| "select sel (n # ns) = map_option shift (select sel ns)"

text \<open>
  \<open>selectAll(selector, tree).forEach((el) => { el.properties.nonce = nonce })\<close>: every
  element of the tree that the selector matches gets the nonce.
\<close>

fun stampLabel :: "(string \<Rightarrow> properties \<Rightarrow> bool) \<Rightarrow> string \<Rightarrow> string \<times> properties \<Rightarrow> string \<times> properties" where
  "stampLabel sel v (t, pr) = (t, if sel t pr then pr\<lparr>nonce := Some v\<rparr> else pr)"

fun stampNode :: "(string \<Rightarrow> properties \<Rightarrow> bool) \<Rightarrow> string \<Rightarrow> node \<Rightarrow> node" where
  "stampNode sel v (Element t pr cs) =
     Element t (if sel t pr then pr\<lparr>nonce := Some v\<rparr> else pr) (map (stampNode sel v) cs)"
| "stampNode sel v n = n"

definition stampAll :: "(string \<Rightarrow> properties \<Rightarrow> bool) \<Rightarrow> string \<Rightarrow> node list \<Rightarrow> node list" where
  "stampAll sel v tree = map (stampNode sel v) tree"

text \<open>
  \<open>remove(tree, null, metaCSP)\<close> of unist-util-remove 4: the test is the meta element
  itself, which only that node passes (the test compares the node's fields by identity).
  The node is dropped from its parent's children, and with the default \<open>cascade\<close> a parent
  that had children and has none left is dropped too; the root never is.
\<close>

fun removeAt :: "path \<Rightarrow> node list \<Rightarrow> node list" where
  "removeAt [] ns = ns"
| "removeAt (i # p) ns =
     (if i < length ns
      then (if p = [] then take i ns @ drop (Suc i) ns
            else let cs = childrenOf (ns ! i); cs' = removeAt p cs
                 in if cs \<noteq> [] \<and> cs' = [] then take i ns @ drop (Suc i) ns
                    else ns[i := setChildren cs' (ns ! i)])
      else ns)"

text \<open>
  The selectors of the unnamed module. \<open>[attr=value]\<close> on a token list compares the tokens
  joined by spaces with the value, case-sensitively.
\<close>

definition spaceSeparated :: "string list \<Rightarrow> string" where
  "spaceSeparated vs = trim (join '' '' vs)"

definition attrEquals :: "string list option \<Rightarrow> string \<Rightarrow> bool" where
  "attrEquals v q = (case v of None \<Rightarrow> False | Some vs \<Rightarrow> spaceSeparated vs = q)"

definition selTag :: "string \<Rightarrow> string \<Rightarrow> properties \<Rightarrow> bool" where
  "selTag name t pr = (t = name)"

definition selLinkStylesheet :: "string \<Rightarrow> properties \<Rightarrow> bool" where
  "selLinkStylesheet t pr = (t = ''link'' \<and> attrEquals (rel pr) ''stylesheet'')"

definition selMetaHttpEquiv :: "string \<Rightarrow> string \<Rightarrow> properties \<Rightarrow> bool" where
  "selMetaHttpEquiv q t pr = (t = ''meta'' \<and> attrEquals (httpEquiv pr) q)"

section \<open>The unnamed module (the document call site)\<close>

text \<open>
  \<open>shouldApplyNonce\<close>: \<open>parsedCSP['script-src']?.includes('nonce')\<close> is \<open>undefined\<close> for an
  absent directive; only its truthiness is used, so it is \<open>False\<close> here.
\<close>

definition shouldApplyNonce :: "string \<Rightarrow> bool \<times> bool" where
  "shouldApplyNonce csp =
     (let parsedCSP = parseCSP csp in
      (case map_of parsedCSP ''script-src'' of None \<Rightarrow> False | Some v \<Rightarrow> includesStr v ''nonce'',
       case map_of parsedCSP ''style-src'' of None \<Rightarrow> False | Some v \<Rightarrow> includesStr v ''nonce''))"

text \<open>\<open>csp.replaceAll('nonce', `nonce-${nonce}`)\<close>.\<close>

definition withNonce :: "string \<Rightarrow> string \<Rightarrow> string" where
  "withNonce nonceV csp = replaceAll csp ''nonce'' (''nonce-'' @ nonceV)"

text \<open>\<open>metaCSP.properties.content\<close>.\<close>

definition contentAt :: "path \<Rightarrow> node list \<Rightarrow> string option" where
  "contentAt p tree = Option.bind (propsAt p tree) content"

text \<open>
  \<open>createAndApplyNonce\<close>. The nonce is \<open>crypto.randomBytes(16).toString('base64')\<close>: the
  value drawn is the parameter \<open>nonceV\<close>, a base64 text (letters, digits, plus, slash and
  the equals sign). The \<open>if (metaCSP)\<close> block is \<open>nonceFromMeta\<close>, the
  \<open>if (headersCSP)\<close> block is \<open>nonceFromHeader\<close>, the two stamping blocks are
  \<open>stampGoverned\<close>. An absent \<open>content\<close> makes \<open>csp.split\<close> throw a TypeError.
\<close>

definition nonceFromMeta ::
  "string \<Rightarrow> node list \<Rightarrow> path option \<Rightarrow> error + bool \<times> bool \<times> node list" where
  "nonceFromMeta nonceV tree metaCSP =
     (case metaCSP of
        None \<Rightarrow> Inr (False, False, tree)
      | Some p \<Rightarrow>
          (case contentAt p tree of
             None \<Rightarrow> Inl TypeError
           | Some c \<Rightarrow>
               (case shouldApplyNonce c of
                  (scriptNonce, styleNonce) \<Rightarrow>
                    Inr (scriptNonce, styleNonce,
                         updateAt (\<lambda>pr. pr\<lparr>content := Some (withNonce nonceV c)\<rparr>) p tree))))"

definition nonceFromHeader ::
  "string \<Rightarrow> response \<Rightarrow> string option \<Rightarrow> bool \<times> bool \<times> response" where
  "nonceFromHeader nonceV res headersCSP =
     (case headersCSP of
        None \<Rightarrow> (False, False, res)
      | Some h \<Rightarrow>
          if h = [] then (False, False, res)
          else (case shouldApplyNonce h of
                  (scriptNonce, styleNonce) \<Rightarrow>
                    (scriptNonce, styleNonce,
                     res\<lparr>headers := (headers res)(''content-security-policy'' \<mapsto> withNonce nonceV h)\<rparr>)))"

definition stampGoverned :: "bool \<Rightarrow> bool \<Rightarrow> string \<Rightarrow> node list \<Rightarrow> node list" where
  "stampGoverned scriptNonceResult styleNonceResult nonceV tree =
     (let tree2 = (if scriptNonceResult then stampAll (selTag ''script'') nonceV tree else tree)
      in if styleNonceResult
         then stampAll selLinkStylesheet nonceV (stampAll (selTag ''style'') nonceV tree2)
         else tree2)"

definition createAndApplyNonce ::
  "string \<Rightarrow> response \<Rightarrow> node list \<Rightarrow> path option \<Rightarrow> string option \<Rightarrow> error + response \<times> node list" where
  "createAndApplyNonce nonceV res tree metaCSP headersCSP =
     (case nonceFromMeta nonceV tree metaCSP of
        Inl e \<Rightarrow> Inl e
      | Inr (scriptNonce1, styleNonce1, tree1) \<Rightarrow>
          (case nonceFromHeader nonceV res headersCSP of
             (scriptNonce2, styleNonce2, res1) \<Rightarrow>
               Inr (res1, stampGoverned (scriptNonce1 \<or> scriptNonce2) (styleNonce1 \<or> styleNonce2) nonceV tree1)))"

definition getMetaCSP :: "node list \<Rightarrow> path option" where
  "getMetaCSP tree =
     (case select (selMetaHttpEquiv ''content-security-policy'') tree of
        Some p \<Rightarrow> Some p
      | None \<Rightarrow> select (selMetaHttpEquiv ''Content-Security-Policy'') tree)"

definition getHeaderCSP :: "response \<Rightarrow> string option" where
  "getHeaderCSP res = headers res ''content-security-policy''"

text \<open>
  The condition of the "CSP with nonce" branch:
  \<open>(metaCSP && metaCSP.properties.content.includes('nonce')) || (headersCSP && headersCSP.includes('nonce'))\<close>.
  With a meta element whose \<open>content\<close> is absent, \<open>.includes\<close> throws a TypeError.
\<close>

definition headerHasNonce :: "string option \<Rightarrow> bool" where
  "headerHasNonce headersCSP =
     (case headersCSP of None \<Rightarrow> False | Some h \<Rightarrow> h \<noteq> [] \<and> includesStr h ''nonce'')"

definition nonceRequested :: "node list \<Rightarrow> path option \<Rightarrow> string option \<Rightarrow> error + bool" where
  "nonceRequested tree metaCSP headersCSP =
     (case metaCSP of
        Some p \<Rightarrow>
          (case contentAt p tree of
             None \<Rightarrow> Inl TypeError
           | Some c \<Rightarrow> Inr (includesStr c ''nonce'' \<or> headerHasNonce headersCSP))
      | None \<Rightarrow> Inr (headerHasNonce headersCSP))"

text \<open>
  The last block, \<open>if (metaCSP && !headersCSP) { ... }\<close>, the same text in both modules.
  \<open>headersCSP\<close> is the value read at the start. The two \<open>TypeError\<close> cases are not reached
  from \<open>contentSecurityPolicy\<close>: the reference is to an element, and the branch condition
  above has thrown already when its \<open>content\<close> is absent.
\<close>

definition promoteOrKeep ::
  "response \<Rightarrow> node list \<Rightarrow> path option \<Rightarrow> string option \<Rightarrow> error + response \<times> node list" where
  "promoteOrKeep res tree metaCSP headersCSP =
     (case metaCSP of
        None \<Rightarrow> Inr (res, tree)
      | Some p \<Rightarrow>
          if truthyStr headersCSP then Inr (res, tree)
          else (case propsAt p tree of
                  None \<Rightarrow> Inl TypeError
                | Some pr \<Rightarrow>
                    if \<not> truthy (keepAsMeta pr)
                    then (case content pr of
                            None \<Rightarrow> Inl TypeError
                          | Some c \<Rightarrow>
                              Inr (res\<lparr>headers := (headers res)(''content-security-policy'' \<mapsto> c)\<rparr>,
                                   removeAt p tree))
                    else Inr (res, updateAt (\<lambda>pr. pr\<lparr>keepAsMeta := None\<rparr>) p tree)))"

definition contentSecurityPolicy ::
  "string \<Rightarrow> response \<Rightarrow> node list \<Rightarrow> error + response \<times> node list" where
  "contentSecurityPolicy nonceV res tree =
     (let metaCSP = getMetaCSP tree; headersCSP = getHeaderCSP res in
      if metaCSP = None \<and> \<not> truthyStr headersCSP then Inr (res, tree)
      else (case nonceRequested tree metaCSP headersCSP of
              Inl e \<Rightarrow> Inl e
            | Inr requested \<Rightarrow>
                (case (if requested then createAndApplyNonce nonceV res tree metaCSP headersCSP
                       else Inr (res, tree)) of
                   Inl e \<Rightarrow> Inl e
                 | Inr (res1, tree1) \<Rightarrow> promoteOrKeep res1 tree1 metaCSP headersCSP)))"

section \<open>src/steps/render.js (the head fragment call site)\<close>

text \<open>
  \<open>head.children.find(...)\<close>: the first child of the root that is a meta element whose first
  \<open>httpEquiv\<close> token is, in lower case, \<open>content-security-policy\<close>.
\<close>

fun findIndex :: "('a \<Rightarrow> bool) \<Rightarrow> 'a list \<Rightarrow> nat option" where
  "findIndex P [] = None"
| "findIndex P (x # xs) = (if P x then Some 0 else map_option Suc (findIndex P xs))"

fun isMetaCSP_render :: "node \<Rightarrow> bool" where
  "isMetaCSP_render (Element t pr cs) =
     (t = ''meta'' \<and>
      (case httpEquiv pr of
         Some (x # xs) \<Rightarrow> toLowerCase x = ''content-security-policy''
       | _ \<Rightarrow> False))"
| "isMetaCSP_render n = False"

definition findMetaCSP_render :: "node list \<Rightarrow> path option" where
  "findMetaCSP_render children = map_option (\<lambda>i. [i]) (findIndex isMetaCSP_render children)"

text \<open>The two \<open>head.children.forEach\<close> loops: the tests and the stamping of the children.\<close>

definition isScript_render :: "string \<Rightarrow> properties \<Rightarrow> bool" where
  "isScript_render t pr = (t = ''script'')"

definition isStyle_render :: "string \<Rightarrow> properties \<Rightarrow> bool" where
  "isStyle_render t pr =
     (t = ''style'' \<or> (t = ''link'' \<and> (case rel pr of Some (x # xs) \<Rightarrow> x = ''stylesheet'' | _ \<Rightarrow> False)))"

fun stampOne :: "(string \<Rightarrow> properties \<Rightarrow> bool) \<Rightarrow> string \<Rightarrow> node \<Rightarrow> node" where
  "stampOne sel v (Element t pr cs) = Element t (if sel t pr then pr\<lparr>nonce := Some v\<rparr> else pr) cs"
| "stampOne sel v el = el"

definition stampChildren :: "(string \<Rightarrow> properties \<Rightarrow> bool) \<Rightarrow> string \<Rightarrow> node list \<Rightarrow> node list" where
  "stampChildren sel v children = map (stampOne sel v) children"

definition stampGoverned_render :: "bool \<Rightarrow> bool \<Rightarrow> string \<Rightarrow> node list \<Rightarrow> node list" where
  "stampGoverned_render scriptNonce styleNonce nonceV head =
     (let head2 = (if scriptNonce then stampChildren isScript_render nonceV head else head)
      in if styleNonce then stampChildren isStyle_render nonceV head2 else head2)"

text \<open>
  \<open>createAndApplyNonce\<close> of render.js parses and tests the two policies in line; the text of
  its first two blocks computes what \<open>nonceFromMeta\<close> and \<open>nonceFromHeader\<close> do.
\<close>

definition createAndApplyNonce_render ::
  "string \<Rightarrow> response \<Rightarrow> node list \<Rightarrow> path option \<Rightarrow> string option \<Rightarrow> error + response \<times> node list" where
  "createAndApplyNonce_render nonceV res head metaCSP headersCSP =
     (case nonceFromMeta nonceV head metaCSP of
        Inl e \<Rightarrow> Inl e
      | Inr (scriptNonce1, styleNonce1, head1) \<Rightarrow>
          (case nonceFromHeader nonceV res headersCSP of
             (scriptNonce2, styleNonce2, res1) \<Rightarrow>
               Inr (res1, stampGoverned_render (scriptNonce1 \<or> scriptNonce2) (styleNonce1 \<or> styleNonce2) nonceV head1)))"

definition contentSecurityPolicy_render ::
  "string \<Rightarrow> response \<Rightarrow> node list \<Rightarrow> error + response \<times> node list" where
  "contentSecurityPolicy_render nonceV res head =
     (let metaCSP = findMetaCSP_render head; headersCSP = headers res ''content-security-policy'' in
      if metaCSP = None \<and> \<not> truthyStr headersCSP then Inr (res, head)
      else (case nonceRequested head metaCSP headersCSP of
              Inl e \<Rightarrow> Inl e
            | Inr requested \<Rightarrow>
                (case (if requested then createAndApplyNonce_render nonceV res head metaCSP headersCSP
                       else Inr (res, head)) of
                   Inl e \<Rightarrow> Inl e
                 | Inr (res1, head1) \<Rightarrow> promoteOrKeep res1 head1 metaCSP headersCSP)))"

section \<open>The two call sites, side by side\<close>

datatype callSite = Document | HeadFragment

fun metaSource :: "callSite \<Rightarrow> node list \<Rightarrow> path option" where
  "metaSource Document tree = getMetaCSP tree"
| "metaSource HeadFragment tree = findMetaCSP_render tree"

fun reconcile :: "callSite \<Rightarrow> string \<Rightarrow> response \<Rightarrow> node list \<Rightarrow> error + response \<times> node list" where
  "reconcile Document nonceV res tree = contentSecurityPolicy nonceV res tree"
| "reconcile HeadFragment nonceV res tree = contentSecurityPolicy_render nonceV res tree"

fun stampGovernedAt :: "callSite \<Rightarrow> bool \<Rightarrow> bool \<Rightarrow> string \<Rightarrow> node list \<Rightarrow> node list" where
  "stampGovernedAt Document sc st nonceV tree = stampGoverned sc st nonceV tree"
| "stampGovernedAt HeadFragment sc st nonceV tree = stampGoverned_render sc st nonceV tree"

text \<open>The number of elements with a given tag name in the whole tree.\<close>

fun countTagNode :: "string \<Rightarrow> node \<Rightarrow> nat" where
  "countTagNode tg (Element t pr cs) = (if t = tg then 1 else 0) + sum_list (map (countTagNode tg) cs)"
| "countTagNode tg n = 0"

definition countTag :: "string \<Rightarrow> node list \<Rightarrow> nat" where
  "countTag tg tree = sum_list (map (countTagNode tg) tree)"

text \<open>
  The elements a call site takes into account, as tag name and properties, in document
  order: every element of the tree at the document call site, the children of the root at
  the head fragment call site.
\<close>

fun elementsOf :: "node \<Rightarrow> (string \<times> properties) list" where
  "elementsOf (Element t pr cs) = (t, pr) # concat (map elementsOf cs)"
| "elementsOf n = []"

definition elements :: "node list \<Rightarrow> (string \<times> properties) list" where
  "elements tree = concat (map elementsOf tree)"

fun scope :: "callSite \<Rightarrow> node list \<Rightarrow> (string \<times> properties) list" where
  "scope Document tree = elements tree"
| "scope HeadFragment tree = List.map_filter labelOf tree"

text \<open>A style element, or a link element whose \<open>rel\<close> is the one token \<open>stylesheet\<close>.\<close>

definition styleGoverned :: "string \<Rightarrow> properties \<Rightarrow> bool" where
  "styleGoverned t pr = (t = ''style'' \<or> (t = ''link'' \<and> rel pr = Some [''stylesheet'']))"

text \<open>
  What a policy text asks for, by the detector of the code: nothing when the text is absent
  or empty. The policy of the Meta source is its content attribute.
\<close>

definition requiredBy :: "string option \<Rightarrow> bool \<times> bool" where
  "requiredBy policy =
     (case policy of None \<Rightarrow> (False, False) | Some s \<Rightarrow> if s = [] then (False, False) else shouldApplyNonce s)"

definition metaPolicy :: "callSite \<Rightarrow> node list \<Rightarrow> string option" where
  "metaPolicy site tree = Option.bind (metaSource site tree) (\<lambda>p. contentAt p tree)"

definition scriptRequired :: "callSite \<Rightarrow> response \<Rightarrow> node list \<Rightarrow> bool" where
  "scriptRequired site res tree =
     (fst (requiredBy (metaPolicy site tree)) \<or> fst (requiredBy (headers res ''content-security-policy'')))"

definition styleRequired :: "callSite \<Rightarrow> response \<Rightarrow> node list \<Rightarrow> bool" where
  "styleRequired site res tree =
     (snd (requiredBy (metaPolicy site tree)) \<or> snd (requiredBy (headers res ''content-security-policy'')))"

section \<open>Facts about the string functions\<close>

lemma split_not_Nil [simp]: "split c s \<noteq> []"
  by (induction s) (auto simp: Let_def)

lemma hd_split: "hd (split c s) = takeWhile (\<lambda>x. x \<noteq> c) s"
  by (induction s) (auto simp: Let_def)

lemma join_split: "join [c] (split c s) = s"
proof (induction s)
  case Nil
  show ?case by simp
next
  case (Cons a s)
  obtain x xs where sp: "split c s = x # xs"
    by (cases "split c s") auto
  show ?case
  proof (cases "a = c")
    case True
    with Cons sp show ?thesis by (cases xs) (auto simp: Let_def)
  next
    case False
    with Cons sp show ?thesis by (cases xs) (auto simp: Let_def)
  qed
qed

lemma tl_split: "join [c] (tl (split c s)) = drop 1 (dropWhile (\<lambda>x. x \<noteq> c) s)"
proof (induction s)
  case Nil
  show ?case by simp
next
  case (Cons a s)
  show ?case
  proof (cases "a = c")
    case True
    then show ?thesis by (simp add: Let_def join_split)
  next
    case False
    with Cons show ?thesis by (simp add: Let_def)
  qed
qed

lemma split_no_sep: "c \<notin> set a \<Longrightarrow> split c a = [a]"
  by (induction a) (auto simp: Let_def)

lemma split_append_sep: "c \<notin> set a \<Longrightarrow> split c (a @ c # b) = a # split c b"
  by (induction a) (auto simp: Let_def)

lemma split_parts_no_sep: "part \<in> set (split c s) \<Longrightarrow> c \<notin> set part"
proof (induction s arbitrary: part)
  case Nil
  then show ?case by simp
next
  case (Cons a s)
  obtain x xs where sp: "split c s = x # xs"
    by (cases "split c s") auto
  from Cons.prems sp have "part = [] \<or> part \<in> set (split c s) \<or> (a \<noteq> c \<and> part = a # x)"
    by (auto simp: Let_def split: if_splits)
  then show ?case
    using Cons.IH sp by auto
qed

lemma split_join:
  assumes "\<forall>y\<in>set (x # xs). CHR '';'' \<notin> set y"
  shows "split CHR '';'' (join ''; '' (x # xs)) = x # map (\<lambda>y. CHR '' '' # y) xs"
  using assms
proof (induction xs arbitrary: x)
  case Nil
  then show ?case by (simp add: split_no_sep)
next
  case (Cons y ys)
  have "join ''; '' (x # y # ys) = x @ CHR '';'' # (CHR '' '' # join ''; '' (y # ys))"
    by simp
  moreover have "split CHR '';'' (CHR '' '' # join ''; '' (y # ys)) = (CHR '' '' # y) # map (\<lambda>y. CHR '' '' # y) ys"
    using Cons.IH [of y] Cons.prems by (simp add: Let_def)
  ultimately show ?case
    using Cons.prems by (simp add: split_append_sep del: join.simps)
qed

lemma dropWhile_fixed: "xs = [] \<or> \<not> P (hd xs) \<Longrightarrow> dropWhile P xs = xs"
  by (cases xs) auto

lemma is_ws_space [simp]: "is_ws CHR '' ''"
  by (simp add: is_ws_def)

lemma trim_pad:
  assumes a: "\<forall>c\<in>set a. is_ws c" and b: "\<forall>c\<in>set b. is_ws c"
  shows "trim (a @ s @ b) = trim s"
proof -
  have 1: "dropWhile is_ws (a @ s @ b) = dropWhile is_ws (s @ b)"
    using a by (simp add: dropWhile_append2)
  show ?thesis
  proof (cases "\<forall>c\<in>set s. is_ws c")
    case True
    then have e: "dropWhile is_ws (s @ b) = []" "dropWhile is_ws s = []"
      using b by auto
    show ?thesis unfolding trim_def 1 e by simp
  next
    case False
    then obtain x where "x \<in> set s" "\<not> is_ws x" by blast
    then have 2: "dropWhile is_ws (s @ b) = dropWhile is_ws s @ b"
      by (simp add: dropWhile_append1)
    have "dropWhile is_ws (rev b @ rev (dropWhile is_ws s)) = dropWhile is_ws (rev (dropWhile is_ws s))"
      by (rule dropWhile_append2) (use b in auto)
    then show ?thesis unfolding trim_def 1 2 by simp
  qed
qed

lemma trim_idem: "trim (trim s) = trim s"
proof -
  define u where "u = dropWhile is_ws s"
  define w where "w = dropWhile is_ws (rev u)"
  have t: "trim s = rev w" by (simp add: trim_def u_def w_def)
  have "dropWhile is_ws (rev w) = rev w"
  proof (rule dropWhile_fixed, cases "w = []")
    case True
    then show "rev w = [] \<or> \<not> is_ws (hd (rev w))" by simp
  next
    case False
    then have ne: "rev u \<noteq> []" by (auto simp: w_def)
    obtain pre where pre: "rev u = pre @ w"
      unfolding w_def by (metis takeWhile_dropWhile_id)
    have "hd (rev w) = last w" using False by (simp add: hd_rev)
    also have "\<dots> = last (rev u)" using False pre by simp
    also have "\<dots> = hd u" using ne by (simp add: last_rev)
    finally have "hd (rev w) = hd u" .
    moreover have "\<not> is_ws (hd u)"
      using ne unfolding u_def by (simp add: hd_dropWhile)
    ultimately show "rev w = [] \<or> \<not> is_ws (hd (rev w))" by simp
  qed
  moreover have "dropWhile is_ws w = w"
    by (simp add: w_def)
  ultimately have "trim (rev w) = rev w"
    unfolding trim_def by simp
  then show ?thesis
    by (simp add: t)
qed

lemma set_trim: "set (trim s) \<subseteq> set s"
proof -
  have "set (trim s) \<subseteq> set (dropWhile is_ws s)"
    unfolding trim_def using set_dropWhileD by fastforce
  then show ?thesis
    using set_dropWhileD by fastforce
qed

section \<open>Facts about parseCSP\<close>

lemma parsePart_eq: "parsePart part = (directiveOf part, valueOf part)"
  by (simp add: parsePart_def directiveOf_def valueOf_def Let_def hd_split tl_split)

lemma parsePart_trim: "parsePart part = tokensOf (trim part)"
  by (simp add: parsePart_eq tokensOf_def directiveOf_def valueOf_def)

lemma map_of_assign:
  "map_of (assign r k v) d = (if k = ''__proto__'' then map_of r d else ((map_of r)(k \<mapsto> v)) d)"
  by (simp add: assign_def update_conv')

lemma map_of_foldl_assign:
  "map_of (foldl (\<lambda>result part. case f part of (k, v) \<Rightarrow> assign result k v) acc ps) d =
     (if d = ''__proto__'' then map_of acc d
      else case map_of (rev (map f ps)) d of Some v \<Rightarrow> Some v | None \<Rightarrow> map_of acc d)"
proof (induction ps arbitrary: acc)
  case Nil
  show ?case by simp
next
  case (Cons p ps)
  obtain k v where f: "f p = (k, v)" by (cases "f p")
  show ?case
    by (simp add: Cons f map_of_assign map_add_def split: option.splits)
qed

lemma render_tokensOf:
  "renderDirective (tokensOf t) = (if CHR '' '' \<in> set t then t else t @ '' '')"
proof (cases "CHR '' '' \<in> set t")
  case True
  then have "dropWhile (\<lambda>c. c \<noteq> CHR '' '') t \<noteq> []"
    by (simp add: dropWhile_eq_Nil_conv)
  then obtain r where r: "dropWhile (\<lambda>c. c \<noteq> CHR '' '') t = CHR '' '' # r"
    using hd_dropWhile [of "\<lambda>c. c \<noteq> CHR '' ''" t]
    by (cases "dropWhile (\<lambda>c. c \<noteq> CHR '' '') t") auto
  have "takeWhile (\<lambda>c. c \<noteq> CHR '' '') t @ dropWhile (\<lambda>c. c \<noteq> CHR '' '') t = t"
    by simp
  with r True show ?thesis by (simp add: tokensOf_def renderDirective_def)
next
  case False
  then have e: "takeWhile (\<lambda>c. c \<noteq> CHR '' '') t = t" "dropWhile (\<lambda>c. c \<noteq> CHR '' '') t = []"
    by (auto simp: takeWhile_eq_all_conv dropWhile_eq_Nil_conv)
  show ?thesis unfolding tokensOf_def renderDirective_def e using False by simp
qed

lemma trim_render:
  assumes a: "\<forall>c\<in>set a. is_ws c"
  shows "trim (a @ renderDirective (parsePart part)) = trim part"
proof (cases "CHR '' '' \<in> set (trim part)")
  case True
  then have "trim (a @ renderDirective (parsePart part)) = trim (a @ trim part @ [])"
    by (simp add: parsePart_trim render_tokensOf)
  also have "\<dots> = trim (trim part)"
    using a by (intro trim_pad) auto
  finally show ?thesis by (simp add: trim_idem)
next
  case False
  then have "trim (a @ renderDirective (parsePart part)) = trim (a @ trim part @ '' '')"
    by (simp add: parsePart_trim render_tokensOf)
  also have "\<dots> = trim (trim part)"
    using a by (intro trim_pad) auto
  finally show ?thesis by (simp add: trim_idem)
qed

lemma parsePart_render:
  assumes "\<forall>c\<in>set a. is_ws c"
  shows "parsePart (a @ renderDirective (parsePart part)) = parsePart part"
  using trim_render [OF assms] by (simp add: parsePart_trim)

lemma render_no_semicolon:
  assumes "CHR '';'' \<notin> set part"
  shows "CHR '';'' \<notin> set (renderDirective (parsePart part))"
proof -
  have "set (renderDirective (parsePart part)) \<subseteq> set (trim part) \<union> {CHR '' ''}"
    by (auto simp: parsePart_trim render_tokensOf)
  then show ?thesis
    using assms set_trim [of part] by auto
qed

lemma update_fresh: "k \<notin> fst ` set al \<Longrightarrow> AList.update k v al = al @ [(k, v)]"
  by (induction al) auto

lemma foldl_assign_distinct:
  assumes "distinct (map fst (acc @ es))" and "\<forall>e\<in>set es. fst e \<noteq> ''__proto__''"
  shows "foldl (\<lambda>r e. case e of (k, v) \<Rightarrow> assign r k v) acc es = acc @ es"
  using assms
proof (induction es arbitrary: acc)
  case Nil
  then show ?case by simp
next
  case (Cons e es)
  obtain k v where e: "e = (k, v)" by (cases e)
  have "assign acc k v = acc @ [(k, v)]"
    using Cons.prems e by (auto simp: assign_def intro!: update_fresh)
  moreover have "distinct (map fst ((acc @ [(k, v)]) @ es))"
    using Cons.prems e by auto
  ultimately show ?case
    using Cons.IH [of "acc @ [(k, v)]"] Cons.prems e by simp
qed

lemma assign_invariant:
  assumes "distinct (map fst r)" and "\<forall>e\<in>set r. fst e \<noteq> ''__proto__'' \<and> Q e" and "Q (k, v)"
  shows "distinct (map fst (assign r k v)) \<and> (\<forall>e\<in>set (assign r k v). fst e \<noteq> ''__proto__'' \<and> Q e)"
proof -
  have "set (AList.update k v r) \<subseteq> insert (k, v) (set r)"
    by (induction r) auto
  with assms show ?thesis
    by (auto simp: assign_def distinct_update)
qed

lemma foldl_assign_invariant:
  assumes "distinct (map fst acc)" and "\<forall>e\<in>set acc. fst e \<noteq> ''__proto__'' \<and> Q e"
    and "\<forall>p\<in>set ps. Q (f p)"
  shows "distinct (map fst (foldl (\<lambda>r p. case f p of (k, v) \<Rightarrow> assign r k v) acc ps)) \<and>
    (\<forall>e\<in>set (foldl (\<lambda>r p. case f p of (k, v) \<Rightarrow> assign r k v) acc ps). fst e \<noteq> ''__proto__'' \<and> Q e)"
  using assms
proof (induction ps arbitrary: acc)
  case Nil
  then show ?case by simp
next
  case (Cons p ps)
  obtain k v where f: "f p = (k, v)" by (cases "f p")
  have "distinct (map fst (assign acc k v)) \<and> (\<forall>e\<in>set (assign acc k v). fst e \<noteq> ''__proto__'' \<and> Q e)"
    using Cons.prems f by (intro assign_invariant) auto
  then show ?case
    using Cons.IH [of "assign acc k v"] Cons.prems f by simp
qed

lemma parseCSP_invariant:
  "distinct (map fst (parseCSP csp)) \<and>
   (\<forall>e\<in>set (parseCSP csp). fst e \<noteq> ''__proto__'' \<and> wellFormedEntry e)"
  unfolding parseCSP_def
  by (rule foldl_assign_invariant) (auto simp: wellFormedEntry_def dest: split_parts_no_sep)

lemma parseCSP_reconstruct:
  assumes ne: "es \<noteq> []" and d: "distinct (map fst es)"
    and wf: "\<forall>e\<in>set es. fst e \<noteq> ''__proto__'' \<and> wellFormedEntry e"
  shows "parseCSP (reconstruct es) = es"
proof -
  obtain e rest where es: "es = e # rest"
    using ne by (cases es) auto
  have semi: "\<forall>y\<in>set (map renderDirective es). CHR '';'' \<notin> set y"
    using wf by (auto simp: wellFormedEntry_def render_no_semicolon)
  have sp: "split CHR '';'' (reconstruct es) =
      renderDirective e # map (\<lambda>y. CHR '' '' # y) (map renderDirective rest)"
    using semi unfolding reconstruct_def es by (simp only: list.map split_join)
  have roundtrip: "parsePart (a @ renderDirective x) = x"
    if "x \<in> set es" and "\<forall>c\<in>set a. is_ws c" for x a
    using that wf parsePart_render [of a] by (auto simp: wellFormedEntry_def)
  have "parsePart (renderDirective e) = e"
    using roundtrip [of e "[]"] es by simp
  moreover have "map parsePart (map (\<lambda>y. CHR '' '' # y) (map renderDirective rest)) = rest"
    using roundtrip [of _ "'' ''"] es by (simp add: map_idI)
  ultimately have "map parsePart (split CHR '';'' (reconstruct es)) = es"
    unfolding sp by (simp add: es)
  moreover have "parseCSP (reconstruct es) =
      foldl (\<lambda>r e. case e of (k, v) \<Rightarrow> assign r k v) [] (map parsePart (split CHR '';'' (reconstruct es)))"
    by (simp add: parseCSP_def foldl_map)
  ultimately show ?thesis
    using foldl_assign_distinct [of "[]" es] d wf by simp
qed

lemma parseCSP_Nil: "parseCSP [] = [([], [])]"
  by (simp add: parseCSP_def parsePart_def trim_def assign_def)

section \<open>Facts about paths, selection, stamping and removal\<close>

lemma labelAt_Nil [simp]: "labelAt [] ns = None"
  by (simp add: labelAt_def)

lemma nodeAt_empty [simp]: "nodeAt p [] = None"
  by (cases p) auto

lemma nodeAt_shift [simp]: "nodeAt (shift q) (n # ns) = nodeAt q ns"
  by (cases q) auto

lemma labelAt_shift [simp]: "labelAt (shift q) (n # ns) = labelAt q ns"
  by (simp add: labelAt_def)

lemma labelAt_zero:
  "labelAt (0 # q) (n # ns) = (if q = [] then labelOf n else labelAt q (childrenOf n))"
  by (simp add: labelAt_def)

lemma select_sound:
  "select sel ns = Some p \<Longrightarrow> \<exists>t pr. labelAt p ns = Some (t, pr) \<and> sel t pr"
proof (induction sel ns arbitrary: p rule: select.induct)
  case (1 sel)
  then show ?case by simp
next
  case (2 sel t pr cs ns)
  show ?case
  proof (cases "sel t pr")
    case True
    with 2 show ?thesis by (auto simp: labelAt_zero)
  next
    case False
    show ?thesis
    proof (cases "select sel cs")
      case (Some q)
      with 2 False obtain t' pr' where "labelAt q cs = Some (t', pr')" "sel t' pr'" "p = 0 # q"
        by auto
      moreover from this have "q \<noteq> []" by auto
      ultimately show ?thesis by (auto simp: labelAt_zero)
    next
      case None
      with 2 False show ?thesis by auto
    qed
  qed
qed auto

lemma findIndex_sound: "findIndex P xs = Some i \<Longrightarrow> i < length xs \<and> P (xs ! i)"
proof (induction xs arbitrary: i)
  case Nil
  then show ?case by simp
next
  case (Cons x xs)
  then show ?case by (cases "P x") auto
qed

lemma findMetaCSP_render_sound:
  assumes "findMetaCSP_render head = Some p"
  shows "\<exists>pr. labelAt p head = Some (''meta'', pr)"
proof -
  from assms obtain i where i: "findIndex isMetaCSP_render head = Some i" "p = [i]"
    by (auto simp: findMetaCSP_render_def)
  then have "i < length head" "isMetaCSP_render (head ! i)"
    using findIndex_sound by blast+
  then show ?thesis
    using i by (cases "head ! i") (auto simp: labelAt_def)
qed

lemma getMetaCSP_sound:
  assumes "getMetaCSP tree = Some p"
  shows "\<exists>pr. labelAt p tree = Some (''meta'', pr)"
proof -
  from assms obtain q where "select (selMetaHttpEquiv q) tree = Some p"
    by (auto simp: getMetaCSP_def split: option.splits)
  then show ?thesis
    using select_sound [of "selMetaHttpEquiv q" tree p] by (auto simp: selMetaHttpEquiv_def)
qed

lemma metaSource_sound:
  "metaSource site tree = Some p \<Longrightarrow> \<exists>pr. labelAt p tree = Some (''meta'', pr)"
  by (cases site) (auto dest: getMetaCSP_sound findMetaCSP_render_sound)

lemma labelAt_updateAt:
  "labelAt p (updateAt f p ns) = map_option (\<lambda>(t, pr). (t, f pr)) (labelAt p ns)"
proof (induction p arbitrary: ns)
  case Nil
  show ?case by simp
next
  case (Cons i p)
  show ?case
  proof (cases "i < length ns")
    case False
    then show ?thesis by (simp add: labelAt_def)
  next
    case True
    show ?thesis
    proof (cases "p = []")
      case True
      with \<open>i < length ns\<close> show ?thesis
        by (cases "ns ! i") (auto simp: labelAt_def)
    next
      case False
      with True Cons.IH [of "childrenOf (ns ! i)"] show ?thesis
        by (cases "ns ! i") (auto simp: labelAt_def)
    qed
  qed
qed

lemma labelAt_stampAll:
  "labelAt p (stampAll sel v ns) = map_option (stampLabel sel v) (labelAt p ns)"
proof (induction p arbitrary: ns)
  case Nil
  show ?case by simp
next
  case (Cons i p)
  show ?case
  proof (cases "i < length ns")
    case False
    then show ?thesis by (simp add: labelAt_def stampAll_def)
  next
    case True
    show ?thesis
    proof (cases "p = []")
      case True
      with \<open>i < length ns\<close> show ?thesis
        by (cases "ns ! i") (auto simp: labelAt_def stampAll_def)
    next
      case False
      with True Cons.IH [of "childrenOf (ns ! i)"] show ?thesis
        by (cases "ns ! i") (auto simp: labelAt_def stampAll_def)
    qed
  qed
qed

lemma labelAt_stampChildren:
  "labelAt p (stampChildren sel v ns) =
     (if length p = 1 then map_option (stampLabel sel v) (labelAt p ns) else labelAt p ns)"
proof (cases p)
  case Nil
  then show ?thesis by simp
next
  case (Cons i q)
  show ?thesis
  proof (cases "i < length ns")
    case False
    with Cons show ?thesis by (simp add: labelAt_def stampChildren_def)
  next
    case True
    with Cons show ?thesis
      by (cases "ns ! i") (auto simp: labelAt_def stampChildren_def)
  qed
qed

lemma length_updateAt [simp]: "length (updateAt f p ns) = length ns"
  by (cases p) auto

lemma updateAt_empty [simp]: "updateAt f p [] = []"
  by (cases p) auto

lemma removeAt_empty [simp]: "removeAt p [] = []"
  by (cases p) auto

lemma removeAt_updateAt: "removeAt p (updateAt f p ns) = removeAt p ns"
proof (induction p arbitrary: ns)
  case Nil
  show ?case by simp
next
  case (Cons i p)
  show ?case
  proof (cases "i < length ns")
    case False
    then show ?thesis by simp
  next
    case True
    show ?thesis
    proof (cases "p = []")
      case True
      with \<open>i < length ns\<close> show ?thesis by simp
    next
      case False
      show ?thesis
      proof (cases "ns ! i")
        case (Element t pr cs)
        have "updateAt f p cs = [] \<longleftrightarrow> cs = []"
          using length_updateAt [of f p cs] by (metis length_0_conv)
        with Element True False Cons.IH [of cs] show ?thesis
          by (simp add: Let_def)
      qed (use True False in \<open>simp_all add: Let_def\<close>)
    qed
  qed
qed

lemma removeAt_map:
  assumes ch: "\<And>n. childrenOf (g n) = map g (childrenOf n)"
    and sc: "\<And>cs n. setChildren (map g cs) (g n) = g (setChildren cs n)"
  shows "removeAt p (map g ns) = map g (removeAt p ns)"
proof (induction p arbitrary: ns)
  case Nil
  show ?case by simp
next
  case (Cons i p)
  show ?case
  proof (cases "i < length ns")
    case False
    then show ?thesis by simp
  next
    case True
    then show ?thesis
      using Cons.IH [of "childrenOf (ns ! i)"]
      by (simp add: Let_def ch sc take_map drop_map map_update)
  qed
qed

lemma removeAt_stampAll: "removeAt p (stampAll sel v ns) = stampAll sel v (removeAt p ns)"
  unfolding stampAll_def
proof (rule removeAt_map)
  show "childrenOf (stampNode sel v n) = map (stampNode sel v) (childrenOf n)" for n
    by (cases n) auto
  show "setChildren (map (stampNode sel v) cs) (stampNode sel v n) = stampNode sel v (setChildren cs n)" for cs n
    by (cases n) auto
qed


lemma removeAt_stampChildren:
  "removeAt p (stampChildren sel v ns) = stampChildren sel v (removeAt p ns)"
proof (cases p)
  case Nil
  then show ?thesis by simp
next
  case (Cons i q)
  have sc: "stampChildren sel v xs = map (stampOne sel v) xs" for xs
    by (simp add: stampChildren_def)
  have ch: "childrenOf (stampOne sel v n) = childrenOf n" for n
    by (cases n) auto
  have st: "setChildren cs (stampOne sel v n) = stampOne sel v (setChildren cs n)" for cs n
    by (cases n) auto
  show ?thesis
  proof (cases "i < length ns")
    case False
    with Cons show ?thesis by (simp add: sc)
  next
    case True
    with Cons show ?thesis
      by (simp add: sc Let_def ch st take_map drop_map map_update)
  qed
qed

lemma removeAt_stampGovernedAt:
  "removeAt p (stampGovernedAt site sc st v tree) = stampGovernedAt site sc st v (removeAt p tree)"
  by (cases site)
    (simp_all add: stampGoverned_def stampGoverned_render_def Let_def removeAt_stampAll
      removeAt_stampChildren)

lemma labelAt_stampGovernedAt:
  assumes "labelAt p tree = Some (''meta'', pr)"
  shows "labelAt p (stampGovernedAt site sc st v tree) = Some (''meta'', pr)"
  using assms
  by (cases site)
    (simp_all add: stampGoverned_def stampGoverned_render_def Let_def labelAt_stampAll
      labelAt_stampChildren selTag_def selLinkStylesheet_def isScript_render_def isStyle_render_def)

lemma countTagNode_stampNode [simp]: "countTagNode tg (stampNode sel v n) = countTagNode tg n"
proof (induction n)
  case (Element t pr cs)
  then show ?case by (simp add: comp_def cong: map_cong)
qed auto

lemma countTag_stampAll [simp]: "countTag tg (stampAll sel v tree) = countTag tg tree"
  by (simp add: countTag_def stampAll_def comp_def)

lemma countTagNode_stampOne [simp]: "countTagNode tg (stampOne sel v n) = countTagNode tg n"
  by (cases n) auto

lemma countTag_stampChildren [simp]: "countTag tg (stampChildren sel v tree) = countTag tg tree"
  by (simp add: countTag_def stampChildren_def comp_def)

lemma countTag_stampGovernedAt [simp]:
  "countTag tg (stampGovernedAt site sc st v tree) = countTag tg tree"
  by (cases site) (simp_all add: stampGoverned_def stampGoverned_render_def Let_def)

lemma countTag_update:
  assumes "i < length ns"
  shows "countTag tg (ns[i := x]) + countTagNode tg (ns ! i) = countTag tg ns + countTagNode tg x"
proof -
  have "ns = take i ns @ ns ! i # drop (Suc i) ns"
    using assms by (rule id_take_nth_drop)
  moreover have "ns[i := x] = take i ns @ x # drop (Suc i) ns"
    using assms by (rule upd_conv_take_nth_drop)
  ultimately have "countTag tg ns = countTag tg (take i ns) + countTagNode tg (ns ! i) + countTag tg (drop (Suc i) ns)"
    and "countTag tg (ns[i := x]) = countTag tg (take i ns) + countTagNode tg x + countTag tg (drop (Suc i) ns)"
    unfolding countTag_def by (metis map_append sum_list.append list.map(2) sum_list.Cons add.assoc)+
  then show ?thesis by simp
qed

lemma countTag_delete:
  assumes "i < length ns"
  shows "countTag tg (take i ns @ drop (Suc i) ns) + countTagNode tg (ns ! i) = countTag tg ns"
proof -
  have "ns = take i ns @ ns ! i # drop (Suc i) ns"
    using assms by (rule id_take_nth_drop)
  then have "countTag tg ns = countTag tg (take i ns) + countTagNode tg (ns ! i) + countTag tg (drop (Suc i) ns)"
    unfolding countTag_def by (metis map_append sum_list.append list.map(2) sum_list.Cons add.assoc)
  then show ?thesis by (simp add: countTag_def)
qed

lemma countTag_updateAt [simp]: "countTag tg (updateAt f p ns) = countTag tg ns"
proof (induction p arbitrary: ns)
  case Nil
  show ?case by simp
next
  case (Cons i p)
  show ?case
  proof (cases "i < length ns")
    case False
    then show ?thesis by simp
  next
    case True
    define x where "x = (if p = [] then mapProps f (ns ! i)
            else setChildren (updateAt f p (childrenOf (ns ! i))) (ns ! i))"
    have "countTagNode tg x = countTagNode tg (ns ! i)"
      unfolding x_def using Cons.IH [of "childrenOf (ns ! i)"]
      by (cases "ns ! i") (auto simp: countTag_def)
    moreover have "updateAt f (i # p) ns = ns[i := x]"
      using True by (simp add: x_def)
    ultimately show ?thesis
      using countTag_update [OF True, of tg x] by simp
  qed
qed

lemma countTag_removeAt:
  assumes "labelAt p ns = Some (tg, pr)"
  shows "countTag tg (removeAt p ns) < countTag tg ns"
  using assms
proof (induction p arbitrary: ns)
  case Nil
  then show ?case by simp
next
  case (Cons i p)
  then have len: "i < length ns"
    by (auto simp: labelAt_def split: if_splits)
  show ?case
  proof (cases "p = []")
    case True
    with Cons.prems len have "labelOf (ns ! i) = Some (tg, pr)"
      by (simp add: labelAt_def)
    then have "0 < countTagNode tg (ns ! i)"
      by (cases "ns ! i") auto
    with True len countTag_delete [OF len, of tg] show ?thesis by simp
  next
    case False
    with Cons.prems len have l: "labelAt p (childrenOf (ns ! i)) = Some (tg, pr)"
      by (simp add: labelAt_def)
    then obtain t pr' cs where el: "ns ! i = Element t pr' cs"
      by (cases "ns ! i") (auto simp: labelAt_def)
    from l el have less: "countTag tg (removeAt p cs) < countTag tg cs"
      using Cons.IH [of cs] by simp
    show ?thesis
    proof (cases "cs \<noteq> [] \<and> removeAt p cs = []")
      case True
      from less have pos: "0 < countTagNode tg (ns ! i)"
        by (simp add: el countTag_def)
      have r: "removeAt (i # p) ns = take i ns @ drop (Suc i) ns"
        using True False len el by (simp add: Let_def)
      show ?thesis
        unfolding r using pos countTag_delete [OF len, of tg] by linarith
    next
      case nocascade: False
      define x where "x = Element t pr' (removeAt p cs)"
      have lt: "countTagNode tg x < countTagNode tg (ns ! i)"
        using less by (simp add: el countTag_def x_def)
      have r: "removeAt (i # p) ns = ns[i := x]"
        using nocascade False len el by (auto simp: Let_def x_def)
      show ?thesis
        unfolding r using lt countTag_update [OF len, of tg x] by linarith
    qed
  qed
qed

section \<open>The reconciler, branch by branch\<close>

lemma reconcile_unfold:
  "reconcile site V res tree =
    (let metaCSP = metaSource site tree; headersCSP = headers res ''content-security-policy'' in
     if metaCSP = None \<and> \<not> truthyStr headersCSP then Inr (res, tree)
     else (case nonceRequested tree metaCSP headersCSP of
             Inl e \<Rightarrow> Inl e
           | Inr requested \<Rightarrow>
               (case (if requested
                      then (case nonceFromMeta V tree metaCSP of
                              Inl e \<Rightarrow> Inl e
                            | Inr (s1, t1, tree1) \<Rightarrow>
                                (case nonceFromHeader V res headersCSP of
                                   (s2, t2, res1) \<Rightarrow>
                                     Inr (res1, stampGovernedAt site (s1 \<or> s2) (t1 \<or> t2) V tree1)))
                      else Inr (res, tree)) of
                  Inl e \<Rightarrow> Inl e
                | Inr (res1, tree1) \<Rightarrow> promoteOrKeep res1 tree1 metaCSP headersCSP)))"
proof (cases site)
  case Document
  show ?thesis
    unfolding Document reconcile.simps metaSource.simps stampGovernedAt.simps
      contentSecurityPolicy_def createAndApplyNonce_def getHeaderCSP_def ..
next
  case HeadFragment
  show ?thesis
    unfolding HeadFragment reconcile.simps metaSource.simps stampGovernedAt.simps
      contentSecurityPolicy_render_def createAndApplyNonce_render_def ..
qed

lemma contentAt_label: "labelAt p tree = Some (t, pr) \<Longrightarrow> contentAt p tree = content pr"
  by (simp add: contentAt_def propsAt_def)

lemma nonceFromHeader_falsy:
  "\<not> truthyStr h \<Longrightarrow> nonceFromHeader V res h = (False, False, res)"
  by (cases h) (auto simp: nonceFromHeader_def)

lemma headerHasNonce_falsy: "\<not> truthyStr h \<Longrightarrow> \<not> headerHasNonce h"
  by (cases h) (auto simp: headerHasNonce_def)

lemma nonceFromHeader_truthy:
  "hv \<noteq> [] \<Longrightarrow> nonceFromHeader V res (Some hv) =
     (fst (shouldApplyNonce hv), snd (shouldApplyNonce hv),
      res\<lparr>headers := (headers res)(''content-security-policy'' \<mapsto> withNonce V hv)\<rparr>)"
  by (simp add: nonceFromHeader_def split: prod.splits)

lemma promoteOrKeep_promote:
  assumes "labelAt p t = Some (tg, pr)" and "content pr = Some c"
    and "\<not> truthy (keepAsMeta pr)" and "\<not> truthyStr h"
  shows "promoteOrKeep res t (Some p) h =
     Inr (res\<lparr>headers := (headers res)(''content-security-policy'' \<mapsto> c)\<rparr>, removeAt p t)"
  using assms by (simp add: promoteOrKeep_def propsAt_def)

lemma promoteOrKeep_keep:
  assumes "labelAt p t = Some (tg, pr)" and "truthy (keepAsMeta pr)" and "\<not> truthyStr h"
  shows "promoteOrKeep res t (Some p) h = Inr (res, updateAt (\<lambda>pr. pr\<lparr>keepAsMeta := None\<rparr>) p t)"
  using assms by (simp add: promoteOrKeep_def propsAt_def)

lemma promoteOrKeep_header:
  assumes "truthyStr h"
  shows "promoteOrKeep res t m h = Inr (res, t)"
  using assms by (simp add: promoteOrKeep_def split: option.splits)

lemma reconcile_meta_no_header:
  assumes m: "metaSource site tree = Some p"
    and l: "labelAt p tree = Some (''meta'', pr)" and c: "content pr = Some c"
    and h: "\<not> truthyStr (headers res ''content-security-policy'')"
  shows "reconcile site V res tree =
     promoteOrKeep res
       (if includesStr c ''nonce''
        then stampGovernedAt site (fst (shouldApplyNonce c)) (snd (shouldApplyNonce c)) V
               (updateAt (\<lambda>pr. pr\<lparr>content := Some (withNonce V c)\<rparr>) p tree)
        else tree)
       (Some p) (headers res ''content-security-policy'')"
proof -
  have req: "nonceRequested tree (Some p) (headers res ''content-security-policy'') =
      Inr (includesStr c ''nonce'')"
    using l c h by (simp add: nonceRequested_def contentAt_label headerHasNonce_falsy)
  have fromMeta: "nonceFromMeta V tree (Some p) =
      Inr (fst (shouldApplyNonce c), snd (shouldApplyNonce c),
           updateAt (\<lambda>pr. pr\<lparr>content := Some (withNonce V c)\<rparr>) p tree)"
    using l c by (simp add: nonceFromMeta_def contentAt_label split: prod.splits)
  show ?thesis
    unfolding reconcile_unfold Let_def m req fromMeta nonceFromHeader_falsy [OF h]
    by simp
qed

lemma reconcile_meta_header:
  assumes m: "metaSource site tree = Some p"
    and l: "labelAt p tree = Some (''meta'', pr)" and c: "content pr = Some c"
    and h: "headers res ''content-security-policy'' = Some hv" and ne: "hv \<noteq> []"
  shows "reconcile site V res tree =
     (if includesStr c ''nonce'' \<or> includesStr hv ''nonce''
      then Inr (res\<lparr>headers := (headers res)(''content-security-policy'' \<mapsto> withNonce V hv)\<rparr>,
                stampGovernedAt site
                  (fst (shouldApplyNonce c) \<or> fst (shouldApplyNonce hv))
                  (snd (shouldApplyNonce c) \<or> snd (shouldApplyNonce hv)) V
                  (updateAt (\<lambda>pr. pr\<lparr>content := Some (withNonce V c)\<rparr>) p tree))
      else Inr (res, tree))"
proof -
  have req: "nonceRequested tree (Some p) (Some hv) =
      Inr (includesStr c ''nonce'' \<or> includesStr hv ''nonce'')"
    using l c ne by (simp add: nonceRequested_def contentAt_label headerHasNonce_def)
  have fromMeta: "nonceFromMeta V tree (Some p) =
      Inr (fst (shouldApplyNonce c), snd (shouldApplyNonce c),
           updateAt (\<lambda>pr. pr\<lparr>content := Some (withNonce V c)\<rparr>) p tree)"
    using l c by (simp add: nonceFromMeta_def contentAt_label split: prod.splits)
  have t: "truthyStr (Some hv)"
    using ne by simp
  show ?thesis
    unfolding reconcile_unfold Let_def m h req fromMeta nonceFromHeader_truthy [OF ne]
      promoteOrKeep_header [OF t]
    by simp
qed

lemma label_after_nonce:
  assumes "labelAt p tree = Some (''meta'', pr)"
  shows "labelAt p (stampGovernedAt site sc st V (updateAt f p tree)) = Some (''meta'', f pr)"
  using assms by (simp add: labelAt_stampGovernedAt labelAt_updateAt)

lemma content_same: "content pr = Some c \<Longrightarrow> pr\<lparr>content := Some c\<rparr> = pr"
  by (cases pr) simp

section \<open>The elements in scope\<close>

lemma elementsOf_stampNode: "elementsOf (stampNode sel v n) = map (stampLabel sel v) (elementsOf n)"
proof (induction n)
  case (Element t pr cs)
  then have "concat (map (\<lambda>x. elementsOf (stampNode sel v x)) cs) =
      map (stampLabel sel v) (concat (map elementsOf cs))"
    by (induction cs) auto
  then show ?case
    by (simp add: comp_def)
qed auto

lemma elements_stampAll: "elements (stampAll sel v tree) = map (stampLabel sel v) (elements tree)"
  unfolding elements_def stampAll_def
  by (induction tree) (auto simp: elementsOf_stampNode)

lemma elements_split:
  assumes "i < length ns"
  shows "set (elements ns) = set (elements (take i ns)) \<union> set (elementsOf (ns ! i)) \<union> set (elements (drop (Suc i) ns))"
proof -
  have "ns = take i ns @ ns ! i # drop (Suc i) ns"
    using assms by (rule id_take_nth_drop)
  then have "elements ns = elements (take i ns) @ elementsOf (ns ! i) @ elements (drop (Suc i) ns)"
    unfolding elements_def by (metis concat.simps(2) concat_append list.map(2) map_append)
  then show ?thesis by auto
qed

lemma elements_update:
  assumes "i < length ns"
  shows "set (elements (ns[i := x])) = set (elements (take i ns)) \<union> set (elementsOf x) \<union> set (elements (drop (Suc i) ns))"
proof -
  have "ns[i := x] = take i ns @ x # drop (Suc i) ns"
    using assms by (rule upd_conv_take_nth_drop)
  then have "elements (ns[i := x]) = elements (take i ns) @ elementsOf x @ elements (drop (Suc i) ns)"
    unfolding elements_def by (metis concat.simps(2) concat_append list.map(2) map_append)
  then show ?thesis by auto
qed

lemma elements_delete:
  "set (elements (take i ns @ drop (Suc i) ns)) = set (elements (take i ns)) \<union> set (elements (drop (Suc i) ns))"
  by (simp add: elements_def)

lemma elements_removeAt: "set (elements (removeAt p ns)) \<subseteq> set (elements ns)"
proof (induction p arbitrary: ns)
  case Nil
  show ?case by simp
next
  case (Cons i p)
  show ?case
  proof (cases "i < length ns")
    case False
    then show ?thesis by simp
  next
    case True
    note split = elements_split [OF True]
    show ?thesis
    proof (cases "p = [] \<or> (childrenOf (ns ! i) \<noteq> [] \<and> removeAt p (childrenOf (ns ! i)) = [])")
      case True
      then have "removeAt (i # p) ns = take i ns @ drop (Suc i) ns"
        using \<open>i < length ns\<close> by (auto simp: Let_def)
      then show ?thesis
        using split elements_delete [of i ns] by auto
    next
      case False
      define x where "x = setChildren (removeAt p (childrenOf (ns ! i))) (ns ! i)"
      have r: "removeAt (i # p) ns = ns[i := x]"
        using False \<open>i < length ns\<close> by (auto simp: Let_def x_def)
      have "set (elementsOf x) \<subseteq> set (elementsOf (ns ! i))"
        using Cons.IH [of "childrenOf (ns ! i)"]
        by (cases "ns ! i") (auto simp: x_def elements_def)
      then show ?thesis
        unfolding r using split elements_update [OF \<open>i < length ns\<close>, of x] by auto
    qed
  qed
qed

lemma elements_updateAt:
  assumes "labelAt p ns = Some (t, pr)"
  shows "set (elements (updateAt f p ns)) \<subseteq> insert (t, f pr) (set (elements ns))"
  using assms
proof (induction p arbitrary: ns)
  case Nil
  then show ?case by simp
next
  case (Cons i p)
  then have len: "i < length ns"
    by (auto simp: labelAt_def split: if_splits)
  note split = elements_split [OF len]
  define x where "x = (if p = [] then mapProps f (ns ! i)
      else setChildren (updateAt f p (childrenOf (ns ! i))) (ns ! i))"
  have u: "updateAt f (i # p) ns = ns[i := x]"
    using len by (simp add: x_def)
  have "set (elementsOf x) \<subseteq> insert (t, f pr) (set (elementsOf (ns ! i)))"
  proof (cases "p = []")
    case True
    with Cons.prems len have "labelOf (ns ! i) = Some (t, pr)"
      by (simp add: labelAt_def)
    with True show ?thesis
      by (cases "ns ! i") (auto simp: x_def)
  next
    case False
    with Cons.prems len have l: "labelAt p (childrenOf (ns ! i)) = Some (t, pr)"
      by (simp add: labelAt_def)
    with False Cons.IH [OF l] show ?thesis
      by (cases "ns ! i") (auto simp: x_def elements_def)
  qed
  then show ?case
    unfolding u using split elements_update [OF len, of x] by auto
qed

lemma topLabels_stampChildren:
  "List.map_filter labelOf (stampChildren sel v ns) = map (stampLabel sel v) (List.map_filter labelOf ns)"
proof (induction ns)
  case Nil
  show ?case by (simp add: stampChildren_def map_filter_simps)
next
  case (Cons n ns)
  then show ?case
    by (cases n) (auto simp: stampChildren_def map_filter_simps)
qed

lemma topLabels_split:
  assumes "i < length ns"
  shows "set (List.map_filter labelOf ns) =
     set (List.map_filter labelOf (take i ns)) \<union> set_option (labelOf (ns ! i)) \<union>
     set (List.map_filter labelOf (drop (Suc i) ns))"
proof -
  have "ns = take i ns @ ns ! i # drop (Suc i) ns"
    using assms by (rule id_take_nth_drop)
  then have "set (List.map_filter labelOf ns) =
      set (List.map_filter labelOf (take i ns @ ns ! i # drop (Suc i) ns))"
    by simp
  then show ?thesis
    by (auto simp: map_filter_def)
qed

lemma topLabels_update:
  assumes "i < length ns"
  shows "set (List.map_filter labelOf (ns[i := x])) =
     set (List.map_filter labelOf (take i ns)) \<union> set_option (labelOf x) \<union>
     set (List.map_filter labelOf (drop (Suc i) ns))"
proof -
  have "ns[i := x] = take i ns @ x # drop (Suc i) ns"
    using assms by (rule upd_conv_take_nth_drop)
  then show ?thesis
    by (auto simp: map_filter_def)
qed

lemma topLabels_removeAt:
  "set (List.map_filter labelOf (removeAt p ns)) \<subseteq> set (List.map_filter labelOf ns)"
proof (cases p)
  case Nil
  then show ?thesis by simp
next
  case (Cons i q)
  show ?thesis
  proof (cases "i < length ns")
    case False
    with Cons show ?thesis by simp
  next
    case True
    note split = topLabels_split [OF True]
    show ?thesis
    proof (cases "q = [] \<or> (childrenOf (ns ! i) \<noteq> [] \<and> removeAt q (childrenOf (ns ! i)) = [])")
      case True
      then have "removeAt p ns = take i ns @ drop (Suc i) ns"
        using \<open>i < length ns\<close> Cons by (auto simp: Let_def)
      then show ?thesis
        using split by (auto simp: map_filter_def)
    next
      case False
      define x where "x = setChildren (removeAt q (childrenOf (ns ! i))) (ns ! i)"
      have r: "removeAt p ns = ns[i := x]"
        using False \<open>i < length ns\<close> Cons by (auto simp: Let_def x_def)
      have "labelOf x = labelOf (ns ! i)"
        by (cases "ns ! i") (auto simp: x_def)
      then show ?thesis
        unfolding r using split topLabels_update [OF \<open>i < length ns\<close>, of x] by auto
    qed
  qed
qed

lemma topLabels_updateAt:
  assumes "labelAt p ns = Some (t, pr)"
  shows "set (List.map_filter labelOf (updateAt f p ns)) \<subseteq> insert (t, f pr) (set (List.map_filter labelOf ns))"
proof (cases p)
  case Nil
  with assms show ?thesis by simp
next
  case (Cons i q)
  with assms have len: "i < length ns"
    by (auto simp: labelAt_def split: if_splits)
  note split = topLabels_split [OF len]
  define x where "x = (if q = [] then mapProps f (ns ! i)
      else setChildren (updateAt f q (childrenOf (ns ! i))) (ns ! i))"
  have u: "updateAt f p ns = ns[i := x]"
    using len Cons by (simp add: x_def)
  have "set_option (labelOf x) \<subseteq> insert (t, f pr) (set_option (labelOf (ns ! i)))"
  proof (cases "q = []")
    case True
    with assms Cons len have "labelOf (ns ! i) = Some (t, pr)"
      by (simp add: labelAt_def)
    with True show ?thesis
      by (cases "ns ! i") (auto simp: x_def)
  next
    case False
    then show ?thesis
      by (cases "ns ! i") (auto simp: x_def)
  qed
  then show ?thesis
    unfolding u using split topLabels_update [OF len, of x] by auto
qed

lemma scope_removeAt: "set (scope site (removeAt p tree)) \<subseteq> set (scope site tree)"
  by (cases site) (simp_all add: elements_removeAt topLabels_removeAt)

lemma scope_updateAt:
  "labelAt p tree = Some (t, pr) \<Longrightarrow>
   set (scope site (updateAt f p tree)) \<subseteq> insert (t, f pr) (set (scope site tree))"
  by (cases site) (simp_all add: elements_updateAt topLabels_updateAt)

text \<open>What the stamping blocks do to one element in scope.\<close>

lemma scope_stampGovernedAt:
  assumes "(t, pr) \<in> set (scope site (stampGovernedAt site sc st V tree))"
  shows "\<exists>pr0. (t, pr0) \<in> set (scope site tree) \<and>
     (t = ''script'' \<longrightarrow> pr = (if sc then pr0\<lparr>nonce := Some V\<rparr> else pr0)) \<and>
     (styleGoverned t pr0 \<longrightarrow> pr = (if st then pr0\<lparr>nonce := Some V\<rparr> else pr0)) \<and>
     rel pr = rel pr0"
proof (cases site)
  case Document
  with assms show ?thesis
    by (auto simp: stampGoverned_def Let_def elements_stampAll selTag_def selLinkStylesheet_def
        styleGoverned_def attrEquals_def spaceSeparated_def trim_def is_ws_def
        split: if_splits)
next
  case HeadFragment
  with assms show ?thesis
    by (auto simp: stampGoverned_render_def Let_def topLabels_stampChildren isScript_render_def
        isStyle_render_def styleGoverned_def split: if_splits)
qed

lemma shouldApplyNonce_Nil: "shouldApplyNonce [] = (False, False)"
  by (simp add: shouldApplyNonce_def parseCSP_Nil)

lemma requiredBy_Some: "requiredBy (Some c) = shouldApplyNonce c"
  by (simp add: requiredBy_def shouldApplyNonce_Nil)

lemma nonceFromHeader_requiredBy:
  "\<exists>res1. nonceFromHeader V res h = (fst (requiredBy h), snd (requiredBy h), res1)"
  by (auto simp: nonceFromHeader_def requiredBy_def split: option.splits prod.splits)

lemma promoteOrKeep_scope:
  assumes "m = None \<or> (\<exists>p pr c. m = Some p \<and> labelAt p t2 = Some (''meta'', pr) \<and> content pr = Some c)"
  shows "\<exists>r' t'. promoteOrKeep r t2 m h = Inr (r', t') \<and>
     set (scope site t') \<subseteq> {l. fst l = ''meta''} \<union> set (scope site t2)"
proof (cases m)
  case None
  then show ?thesis by (simp add: promoteOrKeep_def)
next
  case (Some p)
  with assms obtain pr c where l: "labelAt p t2 = Some (''meta'', pr)" and c: "content pr = Some c"
    by auto
  show ?thesis
  proof (cases "truthyStr h")
    case True
    then show ?thesis by (simp add: promoteOrKeep_header)
  next
    case noheader: False
    show ?thesis
    proof (cases "truthy (keepAsMeta pr)")
      case True
      have "set (scope site (updateAt (\<lambda>pr. pr\<lparr>keepAsMeta := None\<rparr>) p t2))
          \<subseteq> insert (''meta'', pr\<lparr>keepAsMeta := None\<rparr>) (set (scope site t2))"
        using l by (rule scope_updateAt)
      then show ?thesis
        unfolding Some promoteOrKeep_keep [OF l True noheader] by auto
    next
      case False
      show ?thesis
        unfolding Some promoteOrKeep_promote [OF l c False noheader]
        using scope_removeAt [of site p t2] by auto
    qed
  qed
qed

section \<open>When the reconciler returns\<close>

lemma reconcile_type_error:
  assumes "metaSource site tree = Some p" and "contentAt p tree = None"
  shows "reconcile site V res tree = Inl TypeError"
  using assms by (simp add: reconcile_unfold nonceRequested_def)

lemma reconcile_returns:
  assumes "\<forall>p. metaSource site tree = Some p \<longrightarrow> contentAt p tree \<noteq> None"
  shows "\<exists>res' tree'. reconcile site V res tree = Inr (res', tree')"
proof (cases "metaSource site tree")
  case None
  obtain s t res1 where "nonceFromHeader V res (headers res ''content-security-policy'') = (s, t, res1)"
    by (metis prod_cases3)
  then show ?thesis
    unfolding reconcile_unfold None Let_def
    by (simp add: nonceRequested_def nonceFromMeta_def promoteOrKeep_def)
next
  case (Some p)
  then obtain pr where l: "labelAt p tree = Some (''meta'', pr)"
    using metaSource_sound by blast
  with assms Some obtain c where c: "content pr = Some c"
    by (auto simp: contentAt_label)
  show ?thesis
  proof (cases "truthyStr (headers res ''content-security-policy'')")
    case True
    then obtain hv where hv: "headers res ''content-security-policy'' = Some hv" "hv \<noteq> []"
      by (cases "headers res ''content-security-policy''") auto
    show ?thesis
      unfolding reconcile_meta_header [OF Some l c hv] by simp
  next
    case False
    let ?f = "\<lambda>pr. pr\<lparr>content := Some (withNonce V c)\<rparr>"
    let ?mid = "if includesStr c ''nonce''
        then stampGovernedAt site (fst (shouldApplyNonce c)) (snd (shouldApplyNonce c)) V
               (updateAt ?f p tree)
        else tree"
    have "\<exists>pr' c'. labelAt p ?mid = Some (''meta'', pr') \<and> content pr' = Some c'"
      using l c by (simp add: label_after_nonce)
    then have "\<exists>r' t'. promoteOrKeep res ?mid (Some p) (headers res ''content-security-policy'') = Inr (r', t') \<and>
        set (scope site t') \<subseteq> {l. fst l = ''meta''} \<union> set (scope site ?mid)"
      by (intro promoteOrKeep_scope) blast
    then show ?thesis
      unfolding reconcile_meta_no_header [OF Some l c False] by blast
  qed
qed

section \<open>Nonce consistency within the scope of a call site\<close>

text \<open>
  When the nonce branch runs and no element in scope carries the nonce value beforehand,
  the call returns and, in the returned tree, a script element in scope carries the nonce
  exactly when a present policy asks for it under \<open>script-src\<close>, and a style element or
  stylesheet link in scope exactly when one asks for it under \<open>style-src\<close>.
\<close>

theorem nonce_consistency:assumes req: "nonceRequested tree (metaSource site tree) (headers res ''content-security-policy'') = Inr True"
    and fresh: "\<forall>(t, pr)\<in>set (scope site tree). nonce pr \<noteq> Some V"
  shows "\<exists>res' tree'. reconcile site V res tree = Inr (res', tree') \<and>
     (\<forall>(t, pr)\<in>set (scope site tree').
        (t = ''script'' \<longrightarrow> (nonce pr = Some V) = scriptRequired site res tree) \<and>
        (styleGoverned t pr \<longrightarrow> (nonce pr = Some V) = styleRequired site res tree))"
proof -
  let ?h = "headers res ''content-security-policy''"
  let ?sc = "scriptRequired site res tree" and ?st = "styleRequired site res tree"
  obtain res1 where fromHeader:
    "nonceFromHeader V res ?h = (fst (requiredBy ?h), snd (requiredBy ?h), res1)"
    using nonceFromHeader_requiredBy by blast
  have notnoop: "\<not> (metaSource site tree = None \<and> \<not> truthyStr ?h)"
    using req headerHasNonce_falsy [of ?h]
    by (auto simp: nonceRequested_def split: option.splits)
  obtain tree1 where fromMeta:
    "nonceFromMeta V tree (metaSource site tree) =
       Inr (fst (requiredBy (metaPolicy site tree)), snd (requiredBy (metaPolicy site tree)), tree1)"
    and sub1: "set (scope site tree1) \<subseteq> {l. fst l = ''meta''} \<union> set (scope site tree)"
    and lab1: "metaSource site tree = None \<or>
      (\<exists>p pr c. metaSource site tree = Some p \<and> labelAt p tree1 = Some (''meta'', pr) \<and> content pr = Some c)"
  proof (cases "metaSource site tree")
    case None
    show ?thesis
      by (rule that [of tree]) (simp_all add: None nonceFromMeta_def metaPolicy_def requiredBy_def)
  next
    case (Some p)
    then obtain pr where l: "labelAt p tree = Some (''meta'', pr)"
      using metaSource_sound by blast
    with req Some obtain c where c: "content pr = Some c"
      by (auto simp: nonceRequested_def contentAt_label split: option.splits)
    let ?f = "\<lambda>pr. pr\<lparr>content := Some (withNonce V c)\<rparr>"
    show ?thesis
    proof (rule that [of "updateAt ?f p tree"])
      show "nonceFromMeta V tree (metaSource site tree) =
          Inr (fst (requiredBy (metaPolicy site tree)), snd (requiredBy (metaPolicy site tree)),
               updateAt ?f p tree)"
        using l c by (simp add: Some nonceFromMeta_def metaPolicy_def contentAt_label
            requiredBy_Some split: prod.splits)
      show "set (scope site (updateAt ?f p tree)) \<subseteq> {l. fst l = ''meta''} \<union> set (scope site tree)"
        using scope_updateAt [OF l, of site ?f] by auto
      show "metaSource site tree = None \<or>
          (\<exists>p' pr c. metaSource site tree = Some p' \<and>
             labelAt p' (updateAt ?f p tree) = Some (''meta'', pr) \<and> content pr = Some c)"
        using l by (simp add: Some labelAt_updateAt)
    qed
  qed
  let ?tree2 = "stampGovernedAt site ?sc ?st V tree1"
  have lab2: "metaSource site tree = None \<or>
      (\<exists>p pr c. metaSource site tree = Some p \<and> labelAt p ?tree2 = Some (''meta'', pr) \<and> content pr = Some c)"
    using lab1 by (auto simp: labelAt_stampGovernedAt)
  obtain res' tree' where
    result: "promoteOrKeep res1 ?tree2 (metaSource site tree) ?h = Inr (res', tree')"
    and sub': "set (scope site tree') \<subseteq> {l. fst l = ''meta''} \<union> set (scope site ?tree2)"
    using promoteOrKeep_scope [OF lab2] by blast
  have r: "reconcile site V res tree = Inr (res', tree')"
    unfolding reconcile_unfold Let_def if_not_P [OF notnoop] req fromMeta fromHeader
    using result by (simp add: scriptRequired_def styleRequired_def)
  have "(t = ''script'' \<longrightarrow> (nonce pr = Some V) = ?sc) \<and>
        (styleGoverned t pr \<longrightarrow> (nonce pr = Some V) = ?st)"
    if el: "(t, pr) \<in> set (scope site tree')" for t pr
  proof (cases "t = ''meta''")
    case True
    then show ?thesis by (simp add: styleGoverned_def)
  next
    case False
    with el sub' have "(t, pr) \<in> set (scope site ?tree2)"
      by auto
    then obtain pr0 where in1: "(t, pr0) \<in> set (scope site tree1)"
      and script: "t = ''script'' \<longrightarrow> pr = (if ?sc then pr0\<lparr>nonce := Some V\<rparr> else pr0)"
      and style: "styleGoverned t pr0 \<longrightarrow> pr = (if ?st then pr0\<lparr>nonce := Some V\<rparr> else pr0)"
      and rel: "rel pr = rel pr0"
      using scope_stampGovernedAt by blast
    from in1 sub1 False have "(t, pr0) \<in> set (scope site tree)"
      by auto
    with fresh have "nonce pr0 \<noteq> Some V"
      by auto
    moreover have "styleGoverned t pr = styleGoverned t pr0"
      using rel by (simp add: styleGoverned_def)
    ultimately show ?thesis
      using script style by auto
  qed
  with r show ?thesis
    by blast
qed

section \<open>Evaluation on concrete inputs\<close>

lemmas eval_defs =
  contentSecurityPolicy_def contentSecurityPolicy_render_def createAndApplyNonce_def
  createAndApplyNonce_render_def getMetaCSP_def findMetaCSP_render_def getHeaderCSP_def
  selMetaHttpEquiv_def attrEquals_def spaceSeparated_def trim_def is_ws_def selTag_def
  selLinkStylesheet_def isScript_render_def isStyle_render_def nonceRequested_def
  headerHasNonce_def contentAt_def propsAt_def labelAt_def promoteOrKeep_def nonceFromMeta_def
  nonceFromHeader_def shouldApplyNonce_def parseCSP_def parsePart_def assign_def withNonce_def
  stampGoverned_def stampGoverned_render_def stampAll_def stampChildren_def props0_def
  countTag_def Let_def

lemma toLowerCase_examples:
  "toLowerCase ''Content-Security-Policy'' = ''content-security-policy''"
  "toLowerCase ''content-security-policy'' = ''content-security-policy''"
  by code_simp+

lemma nonce_consistency_example:
  "\<exists>res' tree'. reconcile Document ''V''
       \<lparr>headers = [''content-security-policy'' \<mapsto> ''script-src 'nonce' y''], body = None\<rparr>
       [Element ''div'' props0 [Element ''script'' props0 [], Element ''style'' props0 []]] =
       Inr (res', tree') \<and>
     (\<forall>(t, pr)\<in>set (scope Document tree').
        (t = ''script'' \<longrightarrow> nonce pr = Some ''V'') \<and>
        (styleGoverned t pr \<longrightarrow> nonce pr \<noteq> Some ''V''))"
proof -
  let ?res = "\<lparr>headers = [''content-security-policy'' \<mapsto> ''script-src 'nonce' y''], body = None\<rparr>"
  let ?tree = "[Element ''div'' props0 [Element ''script'' props0 [], Element ''style'' props0 []]]"
  have req: "nonceRequested ?tree (metaSource Document ?tree) (headers ?res ''content-security-policy'') = Inr True"
    by (simp add: eval_defs)
  have fresh: "\<forall>(t, pr)\<in>set (scope Document ?tree). nonce pr \<noteq> Some ''V''"
    by (simp add: elements_def props0_def)
  have flags: "scriptRequired Document ?res ?tree" "\<not> styleRequired Document ?res ?tree"
    by (simp_all add: scriptRequired_def styleRequired_def requiredBy_def metaPolicy_def eval_defs)
  from nonce_consistency [OF req fresh] obtain res' tree' where
    "reconcile Document ''V'' ?res ?tree = Inr (res', tree')"
    "\<forall>(t, pr)\<in>set (scope Document tree').
        (t = ''script'' \<longrightarrow> (nonce pr = Some ''V'') = scriptRequired Document ?res ?tree) \<and>
        (styleGoverned t pr \<longrightarrow> (nonce pr = Some ''V'') = styleRequired Document ?res ?tree)"
    by blast
  with flags show ?thesis
    by (intro exI [of _ res'] exI [of _ tree']) auto
qed

section \<open>The claims\<close>

text \<open>
  C1 at the head fragment call site. The policy of the meta element asks for a nonce on
  styles (\<open>style-src\<close> contains \<open>nonce\<close>); render.js stamps the style element that is a child
  of the root and leaves the one inside the \<open>div\<close> without a nonce. (Within the scope of
  each call site the claim holds: \<open>nonce_consistency\<close>.)
\<close>

theorem nested_style_not_stamped_evaluation:
  "contentSecurityPolicy_render ''V'' \<lparr>headers = Map.empty, body = None\<rparr>
     [Element ''meta'' (props0\<lparr>httpEquiv := Some [''content-security-policy''],
        content := Some ''style-src 'nonce' x''\<rparr>) [],
      Element ''style'' props0 [],
      Element ''div'' props0 [Element ''style'' props0 []]] =
   Inr (\<lparr>headers = [''content-security-policy'' \<mapsto> ''style-src 'nonce-V' x''], body = None\<rparr>,
     [Element ''style'' (props0\<lparr>nonce := Some ''V''\<rparr>) [],
      Element ''div'' props0 [Element ''style'' props0 []]])"
  by (simp add: eval_defs toLowerCase_examples)

text \<open>
  C2. On one and the same input, a header policy asking for a nonce on scripts and a script
  below a \<open>div\<close>, the unnamed module stamps the script and render.js does not: the two
  call sites return different trees.
\<close>

theorem call_sites_differ_evaluation:
  "contentSecurityPolicy ''V''
     \<lparr>headers = [''content-security-policy'' \<mapsto> ''script-src 'nonce' x''], body = None\<rparr>
     [Element ''div'' props0 [Element ''script'' props0 []]] =
   Inr (\<lparr>headers = [''content-security-policy'' \<mapsto> ''script-src 'nonce-V' x''], body = None\<rparr>,
     [Element ''div'' props0 [Element ''script'' (props0\<lparr>nonce := Some ''V''\<rparr>) []]]) \<and>
   contentSecurityPolicy_render ''V''
     \<lparr>headers = [''content-security-policy'' \<mapsto> ''script-src 'nonce' x''], body = None\<rparr>
     [Element ''div'' props0 [Element ''script'' props0 []]] =
   Inr (\<lparr>headers = [''content-security-policy'' \<mapsto> ''script-src 'nonce-V' x''], body = None\<rparr>,
     [Element ''div'' props0 [Element ''script'' props0 []]])"
  by (simp add: eval_defs)

text \<open>
  Promotion, for a meta element that the lookup of the call site selects (with its content
  attribute \<open>c\<close>): when its keep-as-meta property is absent or falsy and the response has
  no (non-empty) policy header, the call returns, the header is the content (rewritten with
  the nonce when the content contains \<open>nonce\<close>), and the tree is the input tree without
  the meta element, its governed elements stamped: it has fewer meta elements than before.
\<close>

theorem promotion_exclusivity:
  assumes m: "metaSource site tree = Some p"
    and pr: "propsAt p tree = Some pr" and c: "content pr = Some c"
    and k: "\<not> truthy (keepAsMeta pr)"
    and h: "\<not> truthyStr (headers res ''content-security-policy'')"
  shows "\<exists>tree'. reconcile site V res tree =
           Inr (res\<lparr>headers := (headers res)(''content-security-policy'' \<mapsto>
                        (if includesStr c ''nonce'' then withNonce V c else c))\<rparr>, tree') \<and>
         tree' = (if includesStr c ''nonce''
                  then stampGovernedAt site (fst (shouldApplyNonce c)) (snd (shouldApplyNonce c)) V
                         (removeAt p tree)
                  else removeAt p tree) \<and>
         countTag ''meta'' tree' < countTag ''meta'' tree"
proof -
  from m pr have l: "labelAt p tree = Some (''meta'', pr)"
    using metaSource_sound [of site tree p] by (auto simp: propsAt_def)
  have less: "countTag ''meta'' (removeAt p tree) < countTag ''meta'' tree"
    using l by (rule countTag_removeAt)
  show ?thesis
  proof (cases "includesStr c ''nonce''")
    case True
    let ?f = "\<lambda>pr. pr\<lparr>content := Some (withNonce V c)\<rparr>"
    let ?mid = "stampGovernedAt site (fst (shouldApplyNonce c)) (snd (shouldApplyNonce c)) V
        (updateAt ?f p tree)"
    have lab: "labelAt p ?mid = Some (''meta'', ?f pr)"
      using l by (rule label_after_nonce)
    have "promoteOrKeep res ?mid (Some p) (headers res ''content-security-policy'') =
        Inr (res\<lparr>headers := (headers res)(''content-security-policy'' \<mapsto> withNonce V c)\<rparr>,
             removeAt p ?mid)"
      by (rule promoteOrKeep_promote [OF lab]) (use k h in simp_all)
    moreover have "removeAt p ?mid =
        stampGovernedAt site (fst (shouldApplyNonce c)) (snd (shouldApplyNonce c)) V (removeAt p tree)"
      by (simp add: removeAt_stampGovernedAt removeAt_updateAt)
    ultimately show ?thesis
      using True less reconcile_meta_no_header [OF m l c h, of V] by simp
  next
    case False
    have "promoteOrKeep res tree (Some p) (headers res ''content-security-policy'') =
        Inr (res\<lparr>headers := (headers res)(''content-security-policy'' \<mapsto> c)\<rparr>, removeAt p tree)"
      using l c k h by (rule promoteOrKeep_promote)
    then show ?thesis
      using False less reconcile_meta_no_header [OF m l c h, of V] by simp
  qed
qed

theorem promotion_exclusivity_example:
  "reconcile Document ''V'' \<lparr>headers = Map.empty, body = None\<rparr>
     [Element ''meta'' (props0\<lparr>httpEquiv := Some [''content-security-policy''],
        content := Some ''script-src 'nonce' x''\<rparr>) [],
      Element ''script'' props0 []] =
   Inr (\<lparr>headers = [''content-security-policy'' \<mapsto> ''script-src 'nonce-V' x''], body = None\<rparr>,
     [Element ''script'' (props0\<lparr>nonce := Some ''V''\<rparr>) []])"
proof -
  let ?pr = "props0\<lparr>httpEquiv := Some [''content-security-policy''],
        content := Some ''script-src 'nonce' x''\<rparr>"
  let ?tree = "[Element ''meta'' ?pr [], Element ''script'' props0 []]"
  let ?res = "\<lparr>headers = Map.empty, body = None\<rparr>"
  have m: "metaSource Document ?tree = Some [0]"
    by (simp add: eval_defs)
  have pr: "propsAt [0] ?tree = Some ?pr"
    by (simp add: propsAt_def labelAt_def)
  have c: "content ?pr = Some ''script-src 'nonce' x''"
    by simp
  have k: "\<not> truthy (keepAsMeta ?pr)"
    by (simp add: props0_def)
  have h: "\<not> truthyStr (headers ?res ''content-security-policy'')"
    by simp
  from promotion_exclusivity [OF m pr c k h, where V = "''V''"] show ?thesis
    by (simp add: eval_defs)
qed

text \<open>
  C3. A Meta source that the lookup misses is not promoted. With no policy header, the
  unnamed module returns a document whose meta element is spelled in capitals as it was
  given, header unset and element in place; so does render.js for a meta element below a
  \<open>div\<close>. The lookup of the other module finds the element in either case.
\<close>

theorem missed_meta_not_promoted_evaluation:
  "contentSecurityPolicy ''V'' \<lparr>headers = Map.empty, body = None\<rparr>
     [Element ''meta'' (props0\<lparr>httpEquiv := Some [''CONTENT-SECURITY-POLICY''],
        content := Some ''default-src x''\<rparr>) []] =
   Inr (\<lparr>headers = Map.empty, body = None\<rparr>,
     [Element ''meta'' (props0\<lparr>httpEquiv := Some [''CONTENT-SECURITY-POLICY''],
        content := Some ''default-src x''\<rparr>) []]) \<and>
   contentSecurityPolicy_render ''V'' \<lparr>headers = Map.empty, body = None\<rparr>
     [Element ''div'' props0 [Element ''meta'' (props0\<lparr>httpEquiv := Some [''content-security-policy''],
        content := Some ''default-src x''\<rparr>) []]] =
   Inr (\<lparr>headers = Map.empty, body = None\<rparr>,
     [Element ''div'' props0 [Element ''meta'' (props0\<lparr>httpEquiv := Some [''content-security-policy''],
        content := Some ''default-src x''\<rparr>) []]])"
  by (simp add: eval_defs)




text \<open>
  Keeping the meta element, for one that the lookup of the call site selects (with its
  content attribute \<open>c\<close>): when its keep-as-meta property is truthy and the response has no
  (non-empty) policy header, the call returns the response as it was and the element is
  still at its place in the tree, with the content \<open>c\<close> (rewritten with the nonce when \<open>c\<close>
  contains \<open>nonce\<close>), without the keep-as-meta property and otherwise unchanged.
\<close>

theorem keep_as_meta_preservation:
  assumes m: "metaSource site tree = Some p"
    and pr: "propsAt p tree = Some pr" and c: "content pr = Some c"
    and k: "truthy (keepAsMeta pr)"
    and h: "\<not> truthyStr (headers res ''content-security-policy'')"
  shows "\<exists>tree'. reconcile site V res tree = Inr (res, tree') \<and>
         labelAt p tree' =
           Some (''meta'', pr\<lparr>content := Some (if includesStr c ''nonce'' then withNonce V c else c),
                                keepAsMeta := None\<rparr>) \<and>
         countTag ''meta'' tree' = countTag ''meta'' tree"
proof -
  from m pr have l: "labelAt p tree = Some (''meta'', pr)"
    using metaSource_sound [of site tree p] by (auto simp: propsAt_def)
  let ?g = "\<lambda>pr. pr\<lparr>keepAsMeta := None\<rparr>"
  show ?thesis
  proof (cases "includesStr c ''nonce''")
    case True
    let ?f = "\<lambda>pr. pr\<lparr>content := Some (withNonce V c)\<rparr>"
    let ?mid = "stampGovernedAt site (fst (shouldApplyNonce c)) (snd (shouldApplyNonce c)) V
        (updateAt ?f p tree)"
    have lab: "labelAt p ?mid = Some (''meta'', ?f pr)"
      using l by (rule label_after_nonce)
    have "promoteOrKeep res ?mid (Some p) (headers res ''content-security-policy'') =
        Inr (res, updateAt ?g p ?mid)"
      by (rule promoteOrKeep_keep [OF lab]) (use k h in simp_all)
    moreover have "labelAt p (updateAt ?g p ?mid) = Some (''meta'', ?g (?f pr))"
      using lab by (simp add: labelAt_updateAt)
    ultimately show ?thesis
      using True reconcile_meta_no_header [OF m l c h, of V] by simp
  next
    case False
    have "promoteOrKeep res tree (Some p) (headers res ''content-security-policy'') =
        Inr (res, updateAt ?g p tree)"
      using l k h by (rule promoteOrKeep_keep)
    moreover have "labelAt p (updateAt ?g p tree) = Some (''meta'', ?g pr)"
      using l by (simp add: labelAt_updateAt)
    ultimately show ?thesis
      using False reconcile_meta_no_header [OF m l c h, of V] by (simp add: content_same [OF c])
  qed
qed

theorem keep_as_meta_preservation_example:
  "\<exists>tree'. reconcile HeadFragment ''V'' \<lparr>headers = Map.empty, body = None\<rparr>
     [Element ''meta'' (props0\<lparr>httpEquiv := Some [''Content-Security-Policy''],
        content := Some ''style-src 'nonce' x'', keepAsMeta := Some (JStr ''true'')\<rparr>) []] =
     Inr (\<lparr>headers = Map.empty, body = None\<rparr>, tree') \<and>
   labelAt [0] tree' = Some (''meta'', props0\<lparr>httpEquiv := Some [''Content-Security-Policy''],
        content := Some ''style-src 'nonce-V' x'', keepAsMeta := None\<rparr>)"
proof -
  let ?pr = "props0\<lparr>httpEquiv := Some [''Content-Security-Policy''],
        content := Some ''style-src 'nonce' x'', keepAsMeta := Some (JStr ''true'')\<rparr>"
  let ?tree = "[Element ''meta'' ?pr []]"
  let ?res = "\<lparr>headers = Map.empty, body = None\<rparr>"
  have m: "metaSource HeadFragment ?tree = Some [0]"
    by (simp add: eval_defs toLowerCase_examples)
  have pr: "propsAt [0] ?tree = Some ?pr"
    by (simp add: propsAt_def labelAt_def)
  have c: "content ?pr = Some ''style-src 'nonce' x''"
    by simp
  have k: "truthy (keepAsMeta ?pr)"
    by simp
  have h: "\<not> truthyStr (headers ?res ''content-security-policy'')"
    by simp
  from keep_as_meta_preservation [OF m pr c k h, where V = "''V''"] show ?thesis
    by (auto simp: withNonce_def props0_def)
qed

text \<open>
  C5. A keep-as-meta property that is set to the empty string, as the bare attribute is
  parsed, does not keep the element: with no policy header the content is promoted to the
  header and the meta element is removed, in the unnamed module and in render.js alike.
\<close>

theorem bare_keep_as_meta_promoted_evaluation:
  "contentSecurityPolicy ''V'' \<lparr>headers = Map.empty, body = None\<rparr>
     [Element ''meta'' (props0\<lparr>httpEquiv := Some [''content-security-policy''],
        content := Some ''default-src x'', keepAsMeta := Some (JStr [])\<rparr>) [],
      Element ''title'' props0 []] =
   Inr (\<lparr>headers = [''content-security-policy'' \<mapsto> ''default-src x''], body = None\<rparr>,
     [Element ''title'' props0 []]) \<and>
   contentSecurityPolicy_render ''V'' \<lparr>headers = Map.empty, body = None\<rparr>
     [Element ''meta'' (props0\<lparr>httpEquiv := Some [''content-security-policy''],
        content := Some ''default-src x'', keepAsMeta := Some (JStr [])\<rparr>) [],
      Element ''title'' props0 []] =
   Inr (\<lparr>headers = [''content-security-policy'' \<mapsto> ''default-src x''], body = None\<rparr>,
     [Element ''title'' props0 []])"
  by (simp add: eval_defs toLowerCase_examples)



text \<open>
  C7. With a meta element spelled \<open>Content-Security-Policy\<close> before one spelled
  \<open>content-security-policy\<close>, \<open>getMetaCSP\<close> selects the second, where the lookup of render.js
  selects the first; a meta element spelled in capitals is not found by \<open>getMetaCSP\<close>.
\<close>

theorem getMetaCSP_casing_evaluation:
  "getMetaCSP
     [Element ''meta'' (props0\<lparr>httpEquiv := Some [''Content-Security-Policy''], content := Some ''default-src a''\<rparr>) [],
      Element ''meta'' (props0\<lparr>httpEquiv := Some [''content-security-policy''], content := Some ''default-src b''\<rparr>) []]
     = Some [1] \<and>
   findMetaCSP_render
     [Element ''meta'' (props0\<lparr>httpEquiv := Some [''Content-Security-Policy''], content := Some ''default-src a''\<rparr>) [],
      Element ''meta'' (props0\<lparr>httpEquiv := Some [''content-security-policy''], content := Some ''default-src b''\<rparr>) []]
     = Some [0] \<and>
   getMetaCSP
     [Element ''meta'' (props0\<lparr>httpEquiv := Some [''CONTENT-SECURITY-POLICY''], content := Some ''default-src a''\<rparr>) []]
     = None"
  by (simp add: eval_defs toLowerCase_examples)

text \<open>
  C8, as amended. For every input string and every directive name \<open>d\<close>, the parsed policy
  holds under \<open>d\<close> what the last segment named \<open>d\<close> contributes, where every segment of the
  split on the semicolon counts, the empty ones too: a segment's name is its trimmed text up
  to the first space (empty for an empty segment) and its value is the trimmed text after
  that space, as it stands. Nothing is stored under \<open>__proto__\<close>. The function has no error
  case.
\<close>

theorem parseCSP_lookup:
  "map_of (parseCSP csp) d =
     (if d = ''__proto__'' then None
      else map_of (rev (map (\<lambda>part. (directiveOf part, valueOf part)) (split CHR '';'' csp))) d)"
proof -
  have "(\<lambda>part. (directiveOf part, valueOf part)) = parsePart"
    by (simp add: parsePart_eq fun_eq_iff)
  then show ?thesis
    unfolding parseCSP_def by (simp add: map_of_foldl_assign split: option.splits)
qed

theorem parseCSP_lookup_witness:
  "map_of (parseCSP ''a  b;;a c d'') ''a'' = Some ''c d'' \<and> map_of (parseCSP ''a  b;;a c d'') [] = Some []"
  using parseCSP_lookup [of "''a  b;;a c d''" "''a''"] parseCSP_lookup [of "''a  b;;a c d''" "[]"]
  by (simp add: directiveOf_def valueOf_def trim_def is_ws_def)

theorem parseCSP_empty_segment_counterexample:
  "parseCSP [] = [([], [])] \<and> parseCSP_spec [] = [] \<and>
   parseCSP ''a  b'' = [(''a'', '' b'')] \<and> parseCSP_spec ''a  b'' = [(''a'', ''b'')]"
  by (simp add: parseCSP_def parseCSP_spec_def parsePart_def trim_def assign_def is_ws_def)

text \<open>
  C9. For every raw policy string \<open>s\<close> and every enumeration \<open>es\<close> of the entries of
  \<open>parseCSP s\<close> (each directive once, in any order), parsing the reconstruction of \<open>es\<close> agrees
  with \<open>parseCSP s\<close> on every directive whose value is not empty, in both directions.
\<close>

theorem parser_idempotence:
  assumes "distinct (map fst es)" and "set es = set (parseCSP s)"
  shows "(map_of (parseCSP s) d = Some v \<and> v \<noteq> [] \<longrightarrow> map_of (parseCSP (reconstruct es)) d = Some v) \<and>
         (map_of (parseCSP (reconstruct es)) d = Some v \<and> v \<noteq> [] \<longrightarrow> map_of (parseCSP s) d = Some v)"
proof (cases "es = []")
  case True
  with assms have "parseCSP s = []" by simp
  with True show ?thesis
    by (simp add: reconstruct_def parseCSP_Nil)
next
  case False
  have "parseCSP (reconstruct es) = es"
    using False assms parseCSP_invariant [of s] by (intro parseCSP_reconstruct) auto
  moreover have "map_of es = map_of (parseCSP s)"
    using assms parseCSP_invariant [of s] by (simp add: map_of_inject_set)
  ultimately show ?thesis by simp
qed

theorem parser_idempotence_witness:
  "distinct (map fst [(''c'', ''d''), (''a'', ''e'')]) \<and>
   set [(''c'', ''d''), (''a'', ''e'')] = set (parseCSP ''a b; c d;a e'') \<and>
   map_of (parseCSP (reconstruct [(''c'', ''d''), (''a'', ''e'')])) ''a'' = Some ''e''"
proof -
  have p: "parseCSP ''a b; c d;a e'' = [(''a'', ''e''), (''c'', ''d'')]"
    by (simp add: parseCSP_def parsePart_def trim_def assign_def is_ws_def)
  have h1: "distinct (map fst [(''c'', ''d''), (''a'', ''e'')])"
    by simp
  have h2: "set [(''c'', ''d''), (''a'', ''e'')] = set (parseCSP ''a b; c d;a e'')"
    unfolding p by auto
  show ?thesis
    using parser_idempotence [OF h1 h2, of "''a''" "''e''"] h1 h2 by (simp add: p)
qed



end
